theory Spec2Isabelle
  imports Complex_Main
begin

section \<open>The hexagonal grid of \<^verbatim>\<open>src/hex-grid.js\<close>\<close>

text \<open>
  The class \<^verbatim>\<open>HexGrid\<close> keeps a grid of numbers (1 for a building, 0 for an empty
  cell), padded with a one-cell ring, and computes the lit perimeter by a depth-first
  search that starts outside, in the corner \<^verbatim>\<open>(0,0)\<close>.

  Numbers are modelled as integers: widths, heights and coordinates are the integers the
  text input and the mouse give, and fractions are outside the model. Coordinates that the
  source only ever uses after checking them non-negative are natural numbers. A cell of
  the grid holds an integer or \<^verbatim>\<open>NaN\<close>.

  Of the limits of a JavaScript engine, the largest array length is part of the model
  (\<open>new_matrix\<close>); memory is not. The functions \<open>dfs\<close> and \<open>computePerimeter\<close> recurse
  as deep as the grid has cells; \<open>dfs_stack\<close> and \<open>computePerimeter_stack\<close> are the same
  code on a call stack of a given number of frames.

  A JavaScript exception is the value \<open>Inl\<close> of a sum; the state a throwing method
  leaves behind is not kept. \<open>StackOverflow\<close> is the error of a call that finds the
  call stack full, a \<^verbatim>\<open>RangeError\<close> in V8 and JavaScriptCore and an
  \<^verbatim>\<open>InternalError\<close> in SpiderMonkey.
\<close>

datatype js_error = TypeError | RangeError | StackOverflow

text \<open>
  An entry of \<^verbatim>\<open>perimeterEdges\<close>, \<^verbatim>\<open>{ x: nx, y: ny, dir: backDir }\<close>; the fields
  \<^verbatim>\<open>x\<close> and \<^verbatim>\<open>y\<close> are \<open>ex\<close> and \<open>ey\<close> here, to leave \<open>x\<close> and \<open>y\<close> for variables.
\<close>

record edge =
  ex :: nat
  ey :: nat
  dir :: nat

text \<open>
  The value of a cell: the numbers 0 and 1 that the methods store, any other integer, or
  the \<^verbatim>\<open>NaN\<close> that \<^verbatim>\<open>1 - undefined\<close> gives. A hole of an array, which reads as
  \<^verbatim>\<open>undefined\<close>, is \<open>NaN\<close> too: the source only ever compares a cell with 1 and
  subtracts it from 1, and both treat \<^verbatim>\<open>undefined\<close> as they treat \<^verbatim>\<open>NaN\<close>.
\<close>

datatype jsnum = Num int | NaN

instantiation jsnum :: "{zero, one}"
begin

definition zero_jsnum :: jsnum where
  "zero_jsnum = Num 0"

definition one_jsnum :: jsnum where
  "one_jsnum = Num 1"

instance ..

end

text \<open>\<^verbatim>\<open>1 - v\<close>.\<close>

definition one_minus :: "jsnum \<Rightarrow> jsnum" where
  "one_minus v = (case v of Num n \<Rightarrow> Num (1 - n) | NaN \<Rightarrow> NaN)"

text \<open>The fields of \<^verbatim>\<open>HexGrid\<close> that the grid logic reads and writes.\<close>

record hexgrid =
  W :: int
  H :: int
  grid :: "jsnum list list"
  isVisited :: "bool list list"
  perimeterEdges :: "edge list"

text \<open>The direction tables, indexed by row parity and then by direction.\<close>

definition dx :: "int list list" where
  "dx = [[1, 0, -1, -1, -1, 0], [1, 1, 0, -1, 0, 1]]"

definition dy :: "int list list" where
  "dy = [[0, 1, 1, 0, -1, -1], [0, 1, 1, 0, -1, -1]]"

text \<open>
  Reading \<^verbatim>\<open>a[y][x]\<close>: when \<^verbatim>\<open>a[y]\<close> is \<^verbatim>\<open>undefined\<close> the read throws a
  \<^verbatim>\<open>TypeError\<close> (\<open>has_row\<close> is false); when only the column is missing the value is
  \<^verbatim>\<open>undefined\<close> (\<open>None\<close>).
\<close>

definition has_row :: "'a list list \<Rightarrow> nat \<Rightarrow> bool" where
  "has_row a y = (y < length a)"

definition at2 :: "'a list list \<Rightarrow> nat \<Rightarrow> nat \<Rightarrow> 'a option" where
  "at2 a y x = (if y < length a \<and> x < length (a ! y) then Some (a ! y ! x) else None)"

text \<open>
  \<^verbatim>\<open>this.isVisited[y][x] = true\<close> on an existing row: a write past the end of a
  JavaScript array extends it, the holes reading as \<^verbatim>\<open>undefined\<close>, which is falsy as
  \<open>False\<close> is.
\<close>

definition mark :: "bool list list \<Rightarrow> nat \<Rightarrow> nat \<Rightarrow> bool list list" where
  "mark a y x =
     a[y := (let r = a ! y in
             if x < length r then r[x := True]
             else r @ replicate (x - length r) False @ [True])]"

text \<open>
  The closure \<^verbatim>\<open>dfs\<close> of \<^verbatim>\<open>computePerimeter\<close> and its \<^verbatim>\<open>for\<close> loop over the six
  directions, \<open>dfs_loop d\<close> being the loop from direction \<open>d\<close> on. The state is the
  object and the local counter \<^verbatim>\<open>totalCount\<close>.
\<close>

function dfs :: "nat \<Rightarrow> nat \<Rightarrow> hexgrid \<Rightarrow> nat \<Rightarrow> js_error + hexgrid \<times> nat"
  and dfs_loop :: "nat \<Rightarrow> nat \<Rightarrow> nat \<Rightarrow> hexgrid \<Rightarrow> nat \<Rightarrow> js_error + hexgrid \<times> nat" where
  "dfs y x s totalCount =
     (if \<not> has_row (grid s) y then Inl TypeError
      else if at2 (grid s) y x = Some 1 then Inr (s, totalCount)
      else if \<not> has_row (isVisited s) y then Inl TypeError
      else if at2 (isVisited s) y x = Some True then Inr (s, totalCount)
      else dfs_loop 0 y x (s\<lparr>isVisited := mark (isVisited s) y x\<rparr>) totalCount)"
| "dfs_loop d y x s totalCount =
     (if d < 6 then
        let ny = int y + dy ! (y mod 2) ! d;
            nx = int x + dx ! (y mod 2) ! d
        in if ny < 0 \<or> nx < 0 \<or> ny > H s + 1 \<or> nx > W s + 1
           then dfs_loop (d + 1) y x s totalCount
           else if \<not> has_row (grid s) (nat ny) then Inl TypeError
           else if at2 (grid s) (nat ny) (nat nx) = Some 1
           then dfs_loop (d + 1) y x
                  (s\<lparr>perimeterEdges := perimeterEdges s @
                       [\<lparr>ex = nat nx, ey = nat ny, dir = (d + 3) mod 6\<rparr>]\<rparr>)
                  (totalCount + 1)
           else (case dfs (nat ny) (nat nx) s totalCount of
                   Inl e \<Rightarrow> Inl e
                 | Inr (s', totalCount') \<Rightarrow> dfs_loop (d + 1) y x s' totalCount')
      else Inr (s, totalCount))"
  by pat_completeness auto

subsection \<open>The methods\<close>

text \<open>
  \<^verbatim>\<open>Array.from({ length: rows }, () => Array(cols).fill(v))\<close>. An array has at most
  \<open>2\<^sup>3\<^sup>2 - 1\<close> elements. A number of rows that is not positive gives the empty array
  and a larger one than an array can have throws a \<^verbatim>\<open>RangeError\<close>; \<^verbatim>\<open>Array(cols)\<close>
  throws a \<^verbatim>\<open>RangeError\<close> when \<open>cols\<close> is negative or too large, as soon as one row
  is built.
\<close>

definition max_array_length :: int where
  "max_array_length = 2 ^ 32 - 1"

definition new_matrix :: "int \<Rightarrow> int \<Rightarrow> 'a \<Rightarrow> js_error + 'a list list" where
  "new_matrix rows cols v =
     (if max_array_length < rows then Inl RangeError
      else if 0 < rows \<and> (cols < 0 \<or> max_array_length < cols) then Inl RangeError
      else Inr (replicate (nat rows) (replicate (nat cols) v)))"

text \<open>\<^verbatim>\<open>computePerimeter()\<close> returns \<^verbatim>\<open>totalCount\<close>; the edge list is a field of the state.\<close>

definition computePerimeter :: "hexgrid \<Rightarrow> js_error + nat \<times> hexgrid" where
  "computePerimeter s =
     (case new_matrix (H s + 2) (W s + 2) False of
        Inl e \<Rightarrow> Inl e
      | Inr v \<Rightarrow>
          (case dfs 0 0 (s\<lparr>isVisited := v, perimeterEdges := []\<rparr>) 0 of
             Inl e \<Rightarrow> Inl e
           | Inr (s', totalCount) \<Rightarrow> Inr (totalCount, s')))"

text \<open>
  \<^verbatim>\<open>draw()\<close> traces the perimeter and then paints. Of the painting only the reads of
  \<^verbatim>\<open>this.grid[y][x]\<close> for \<open>1 \<le> y \<le> H\<close>, \<open>1 \<le> x \<le> W\<close> are kept, which throw when a row
  is missing; the canvas is not modelled. \<^verbatim>\<open>resizeCanvas()\<close> sets the canvas size and
  draws.
\<close>

definition draw :: "hexgrid \<Rightarrow> js_error + hexgrid" where
  "draw s =
     (case computePerimeter s of
        Inl e \<Rightarrow> Inl e
      | Inr (totalPerimeter, s') \<Rightarrow>
          if 1 \<le> W s' \<and> (\<exists>y \<in> set [1..H s']. \<not> has_row (grid s') (nat y))
          then Inl TypeError else Inr s')"

definition resizeCanvas :: "hexgrid \<Rightarrow> js_error + hexgrid" where
  "resizeCanvas s = draw s"

definition initEmptyGrid :: "int \<Rightarrow> int \<Rightarrow> hexgrid \<Rightarrow> js_error + hexgrid" where
  "initEmptyGrid w h s =
     (case new_matrix (h + 2) (w + 2) 0 of
        Inl e \<Rightarrow> Inl e
      | Inr g \<Rightarrow> resizeCanvas (s\<lparr>W := w, H := h, grid := g\<rparr>))"

text \<open>
  \<^verbatim>\<open>loadFromInput()\<close>. The text layer (\<^verbatim>\<open>trim\<close>, \<^verbatim>\<open>split\<close>, \<^verbatim>\<open>Number\<close>) is not
  modelled: the function takes the two numbers of the first line and the numbers of each
  later non-empty line, \<open>rows ! (i - 1)\<close> being \<^verbatim>\<open>lines[i]\<close>. With no later line the
  method returns at \<^verbatim>\<open>lines.length < 2\<close>. \<open>fill_row\<close> is the inner loop over \<open>j\<close>,
  \<open>fill_rows\<close> the outer loop over \<open>i\<close>: \<^verbatim>\<open>lines[i].split\<close> throws when the line is
  missing, and \<^verbatim>\<open>rowData[j - 1] || 0\<close> is 0 for a missing number. The writes are inside
  the matrix just allocated.
\<close>

definition fill_row :: "int list \<Rightarrow> int \<Rightarrow> jsnum list \<Rightarrow> jsnum list" where
  "fill_row rowData w r =
     fold (\<lambda>j r. r[nat j := (if nat (j - 1) < length rowData then Num (rowData ! nat (j - 1))
                             else 0)])
       [1..w] r"

fun fill_rows ::
  "int list list \<Rightarrow> int \<Rightarrow> int list \<Rightarrow> jsnum list list \<Rightarrow> js_error + jsnum list list" where
  "fill_rows rows w [] g = Inr g"
| "fill_rows rows w (i # is) g =
     (if nat (i - 1) < length rows
      then fill_rows rows w is (g[nat i := fill_row (rows ! nat (i - 1)) w (g ! nat i)])
      else Inl TypeError)"

definition loadFromInput :: "int \<times> int \<Rightarrow> int list list \<Rightarrow> hexgrid \<Rightarrow> js_error + hexgrid" where
  "loadFromInput header rows s =
     (if rows = [] then Inr s
      else let (w, h) = header in
        case new_matrix (h + 2) (w + 2) 0 of
          Inl e \<Rightarrow> Inl e
        | Inr g \<Rightarrow>
            (case fill_rows rows w [1..h] g of
               Inl e \<Rightarrow> Inl e
             | Inr g' \<Rightarrow> resizeCanvas (s\<lparr>W := w, H := h, grid := g'\<rparr>)))"

text \<open>
  \<^verbatim>\<open>handleClick(e)\<close>. The pixel geometry is a parameter: \<open>mouse_dist x y\<close> is the
  local \<^verbatim>\<open>dist\<close>, the distance from the mouse to the centre of the cell in column \<open>x\<close>
  of row \<open>y\<close>. \<open>pick\<close> is the double loop that keeps the nearest centre closer than
  \<^verbatim>\<open>hexSize\<close>, with \<open>None\<close> for the initial \<^verbatim>\<open>Infinity\<close> and \<^verbatim>\<open>null\<close>.
\<close>

definition hexSize :: real where
  "hexSize = 30"

definition pick :: "(int \<Rightarrow> int \<Rightarrow> real) \<Rightarrow> hexgrid \<Rightarrow> (int \<times> int) option" where
  "pick mouse_dist s =
     snd (fold (\<lambda>y. fold (\<lambda>x (bestDist, bestPos).
                  if mouse_dist x y < hexSize \<and>
                     (case bestDist of None \<Rightarrow> True | Some b \<Rightarrow> mouse_dist x y < b)
                  then (Some (mouse_dist x y), Some (x, y)) else (bestDist, bestPos)) [1..W s])
            [1..H s] (None, None))"

text \<open>
  \<^verbatim>\<open>this.grid[y][x] = 1 - this.grid[y][x]\<close>. In a row too short to hold column \<open>x\<close>
  the read gives \<^verbatim>\<open>undefined\<close>, the source stores \<^verbatim>\<open>NaN\<close>, and the write extends
  the row.
\<close>

definition toggle :: "jsnum list list \<Rightarrow> nat \<Rightarrow> nat \<Rightarrow> js_error + jsnum list list" where
  "toggle g y x =
     (if \<not> has_row g y then Inl TypeError
      else Inr (g[y := (let r = g ! y in
                        if x < length r then r[x := one_minus (r ! x)]
                        else r @ replicate (x - length r) NaN @ [NaN])]))"

definition handleClick :: "(int \<Rightarrow> int \<Rightarrow> real) \<Rightarrow> hexgrid \<Rightarrow> js_error + hexgrid" where
  "handleClick mouse_dist s =
     (case pick mouse_dist s of
        None \<Rightarrow> Inr s
      | Some (x, y) \<Rightarrow>
          (case toggle (grid s) (nat y) (nat x) of
             Inl e \<Rightarrow> Inl e
           | Inr g \<Rightarrow> draw (s\<lparr>grid := g\<rparr>)))"

subsection \<open>The call stack\<close>

text \<open>
  Every call of the closure \<^verbatim>\<open>dfs\<close> takes a frame of the engine's call stack until it
  returns, and a call that finds no frame left throws. \<open>dfs_stack\<close> is the closure on
  a stack that has room for \<open>frames\<close> nested calls of it, and the methods below are
  the methods above with this closure in place of \<open>dfs\<close>.
\<close>

function dfs_stack :: "nat \<Rightarrow> nat \<Rightarrow> nat \<Rightarrow> hexgrid \<Rightarrow> nat \<Rightarrow> js_error + hexgrid \<times> nat"
  and dfs_loop_stack ::
    "nat \<Rightarrow> nat \<Rightarrow> nat \<Rightarrow> nat \<Rightarrow> hexgrid \<Rightarrow> nat \<Rightarrow> js_error + hexgrid \<times> nat" where
  "dfs_stack 0 y x s totalCount = Inl StackOverflow"
| "dfs_stack (Suc frames) y x s totalCount =
     (if \<not> has_row (grid s) y then Inl TypeError
      else if at2 (grid s) y x = Some 1 then Inr (s, totalCount)
      else if \<not> has_row (isVisited s) y then Inl TypeError
      else if at2 (isVisited s) y x = Some True then Inr (s, totalCount)
      else dfs_loop_stack frames 0 y x (s\<lparr>isVisited := mark (isVisited s) y x\<rparr>) totalCount)"
| "dfs_loop_stack frames d y x s totalCount =
     (if d < 6 then
        let ny = int y + dy ! (y mod 2) ! d;
            nx = int x + dx ! (y mod 2) ! d
        in if ny < 0 \<or> nx < 0 \<or> ny > H s + 1 \<or> nx > W s + 1
           then dfs_loop_stack frames (d + 1) y x s totalCount
           else if \<not> has_row (grid s) (nat ny) then Inl TypeError
           else if at2 (grid s) (nat ny) (nat nx) = Some 1
           then dfs_loop_stack frames (d + 1) y x
                  (s\<lparr>perimeterEdges := perimeterEdges s @
                       [\<lparr>ex = nat nx, ey = nat ny, dir = (d + 3) mod 6\<rparr>]\<rparr>)
                  (totalCount + 1)
           else (case dfs_stack frames (nat ny) (nat nx) s totalCount of
                   Inl e \<Rightarrow> Inl e
                 | Inr (s', totalCount') \<Rightarrow> dfs_loop_stack frames (d + 1) y x s' totalCount')
      else Inr (s, totalCount))"
  by pat_completeness auto

definition computePerimeter_stack :: "nat \<Rightarrow> hexgrid \<Rightarrow> js_error + nat \<times> hexgrid" where
  "computePerimeter_stack frames s =
     (case new_matrix (H s + 2) (W s + 2) False of
        Inl e \<Rightarrow> Inl e
      | Inr v \<Rightarrow>
          (case dfs_stack frames 0 0 (s\<lparr>isVisited := v, perimeterEdges := []\<rparr>) 0 of
             Inl e \<Rightarrow> Inl e
           | Inr (s', totalCount) \<Rightarrow> Inr (totalCount, s')))"

definition draw_stack :: "nat \<Rightarrow> hexgrid \<Rightarrow> js_error + hexgrid" where
  "draw_stack frames s =
     (case computePerimeter_stack frames s of
        Inl e \<Rightarrow> Inl e
      | Inr (totalPerimeter, s') \<Rightarrow>
          if 1 \<le> W s' \<and> (\<exists>y \<in> set [1..H s']. \<not> has_row (grid s') (nat y))
          then Inl TypeError else Inr s')"

definition resizeCanvas_stack :: "nat \<Rightarrow> hexgrid \<Rightarrow> js_error + hexgrid" where
  "resizeCanvas_stack frames s = draw_stack frames s"

definition initEmptyGrid_stack :: "nat \<Rightarrow> int \<Rightarrow> int \<Rightarrow> hexgrid \<Rightarrow> js_error + hexgrid" where
  "initEmptyGrid_stack frames w h s =
     (case new_matrix (h + 2) (w + 2) 0 of
        Inl e \<Rightarrow> Inl e
      | Inr g \<Rightarrow> resizeCanvas_stack frames (s\<lparr>W := w, H := h, grid := g\<rparr>))"

definition loadFromInput_stack ::
  "nat \<Rightarrow> int \<times> int \<Rightarrow> int list list \<Rightarrow> hexgrid \<Rightarrow> js_error + hexgrid" where
  "loadFromInput_stack frames header rows s =
     (if rows = [] then Inr s
      else let (w, h) = header in
        case new_matrix (h + 2) (w + 2) 0 of
          Inl e \<Rightarrow> Inl e
        | Inr g \<Rightarrow>
            (case fill_rows rows w [1..h] g of
               Inl e \<Rightarrow> Inl e
             | Inr g' \<Rightarrow> resizeCanvas_stack frames (s\<lparr>W := w, H := h, grid := g'\<rparr>)))"

subsection \<open>The vocabulary of the specification\<close>

text \<open>
  The parity table as the specification writes it, \<open>(\<Delta>col, \<Delta>row)\<close> for the directions
  0 to 5.
\<close>

definition spec_offsets :: "nat \<Rightarrow> (int \<times> int) list" where
  "spec_offsets row =
     (if even row then [(1, 0), (0, 1), (-1, 1), (-1, 0), (-1, -1), (0, -1)]
      else [(1, 0), (1, 1), (0, 1), (-1, 0), (0, -1), (1, -1)])"

text \<open>
  A cell is \<open>(row, col)\<close>. \<open>in_bounds\<close> are the cells of the padded grid, rows 0 to
  \<open>H + 1\<close> and columns 0 to \<open>W + 1\<close>; a cell is \<open>filled\<close> when the grid holds 1 there,
  as the source tests it, and empty otherwise. \<open>nbr s y x d\<close> is the neighbour of \<open>(y, x)\<close>
  in direction \<open>d\<close> when it lies inside the padded grid, and \<open>reach\<close> are the empty cells
  that a path of empty neighbours joins to the corner \<open>(0, 0)\<close>.
\<close>

definition in_bounds :: "hexgrid \<Rightarrow> nat \<Rightarrow> nat \<Rightarrow> bool" where
  "in_bounds s y x = (int y \<le> H s + 1 \<and> int x \<le> W s + 1)"

definition filled :: "hexgrid \<Rightarrow> nat \<Rightarrow> nat \<Rightarrow> bool" where
  "filled s y x = (at2 (grid s) y x = Some 1)"

definition nbr :: "hexgrid \<Rightarrow> nat \<Rightarrow> nat \<Rightarrow> nat \<Rightarrow> (nat \<times> nat) option" where
  "nbr s y x d =
     (let ny = int y + dy ! (y mod 2) ! d;
          nx = int x + dx ! (y mod 2) ! d
      in if ny < 0 \<or> nx < 0 \<or> ny > H s + 1 \<or> nx > W s + 1 then None
         else Some (nat ny, nat nx))"

inductive reach :: "hexgrid \<Rightarrow> nat \<Rightarrow> nat \<Rightarrow> bool" for s where
  start: "\<not> filled s 0 0 \<Longrightarrow> reach s 0 0"
| step: "reach s y x \<Longrightarrow> d < 6 \<Longrightarrow> nbr s y x d = Some (y', x') \<Longrightarrow> \<not> filled s y' x'
         \<Longrightarrow> reach s y' x'"

text \<open>
  A grid of \<open>H + 2\<close> rows and \<open>W + 2\<close> columns that has the corner cell, and the border
  ring of the specification: row 0, row \<open>H + 1\<close>, column 0 and column \<open>W + 1\<close>. The
  rows and each row are JavaScript arrays, so neither has more than \<open>max_array_length\<close>
  elements.
\<close>

definition wf_grid :: "hexgrid \<Rightarrow> bool" where
  "wf_grid s = (- 1 \<le> H s \<and> - 1 \<le> W s \<and> length (grid s) = nat (H s + 2) \<and>
                list_all (\<lambda>r. length r = nat (W s + 2)) (grid s) \<and>
                H s + 2 \<le> max_array_length \<and> W s + 2 \<le> max_array_length)"

definition border_empty :: "hexgrid \<Rightarrow> bool" where
  "border_empty s =
     (\<forall>y x. in_bounds s y x \<longrightarrow> (y = 0 \<or> int y = H s + 1 \<or> x = 0 \<or> int x = W s + 1)
         \<longrightarrow> \<not> filled s y x)"

text \<open>
  The pairs of a reachable empty cell and a filled neighbour of it.
\<close>

definition exposed_pairs :: "hexgrid \<Rightarrow> ((nat \<times> nat) \<times> (nat \<times> nat)) set" where
  "exposed_pairs s =
     {((y, x), (y', x')). reach s y x \<and> filled s y' x' \<and> (\<exists>d<6. nbr s y x d = Some (y', x'))}"

text \<open>
  The sides the trace reports: side \<open>dir\<close> of a filled cell whose neighbour across that side
  is an empty cell reachable from the corner.
\<close>

definition lit :: "hexgrid \<Rightarrow> edge set" where
  "lit s = {e. filled s (ey e) (ex e) \<and> dir e < 6 \<and>
               (\<exists>y x. nbr s (ey e) (ex e) (dir e) = Some (y, x) \<and> reach s y x)}"

subsection \<open>Example grids\<close>

text \<open>
  One filled cell and two filled neighbours in an empty grid, a filled block of three by
  three cells, and a grid whose corner \<open>(0, 0)\<close> is filled.
\<close>

definition single_cell :: hexgrid where
  "single_cell = \<lparr>W = 3, H = 3,
     grid = [[0, 0, 0, 0, 0],
             [0, 0, 0, 0, 0],
             [0, 0, 1, 0, 0],
             [0, 0, 0, 0, 0],
             [0, 0, 0, 0, 0]],
     isVisited = [], perimeterEdges = []\<rparr>"

definition pair_cells :: hexgrid where
  "pair_cells = \<lparr>W = 4, H = 3,
     grid = [[0, 0, 0, 0, 0, 0],
             [0, 0, 0, 0, 0, 0],
             [0, 0, 1, 1, 0, 0],
             [0, 0, 0, 0, 0, 0],
             [0, 0, 0, 0, 0, 0]],
     isVisited = [], perimeterEdges = []\<rparr>"

definition full_block :: hexgrid where
  "full_block = \<lparr>W = 3, H = 3,
     grid = [[0, 0, 0, 0, 0],
             [0, 1, 1, 1, 0],
             [0, 1, 1, 1, 0],
             [0, 1, 1, 1, 0],
             [0, 0, 0, 0, 0]],
     isVisited = [], perimeterEdges = []\<rparr>"

definition corner_filled :: hexgrid where
  "corner_filled = \<lparr>W = 1, H = 1,
     grid = [[1, 0, 0],
             [0, 1, 0],
             [0, 0, 0]],
     isVisited = [], perimeterEdges = []\<rparr>"

text \<open>
  The fixture of the specification: width 8, height 4 and a filled block of two by two
  cells at rows 2 and 3, columns 4 and 5.
\<close>

definition block_fixture :: hexgrid where
  "block_fixture = \<lparr>W = 8, H = 4,
     grid = [[0, 0, 0, 0, 0, 0, 0, 0, 0, 0],
             [0, 0, 0, 0, 0, 0, 0, 0, 0, 0],
             [0, 0, 0, 0, 1, 1, 0, 0, 0, 0],
             [0, 0, 0, 0, 1, 1, 0, 0, 0, 0],
             [0, 0, 0, 0, 0, 0, 0, 0, 0, 0],
             [0, 0, 0, 0, 0, 0, 0, 0, 0, 0]],
     isVisited = [], perimeterEdges = []\<rparr>"

text \<open>
  An empty grid of width 1000000 and height 1, as \<^verbatim>\<open>initEmptyGrid(1000000, 1)\<close>
  allocates it.
\<close>

definition wide_grid :: hexgrid where
  "wide_grid = \<lparr>W = 1000000, H = 1, grid = replicate 3 (replicate 1000002 0),
     isVisited = [], perimeterEdges = []\<rparr>"

subsection \<open>Definitions for the proofs\<close>

text \<open>
  The cells marked in \<^verbatim>\<open>isVisited\<close>, those inside the bounds still unmarked, what a
  call of the search keeps of the object, and the measure that goes down with every call.
\<close>

definition marked :: "hexgrid \<Rightarrow> nat \<Rightarrow> nat \<Rightarrow> bool" where
  "marked s y x = (at2 (isVisited s) y x = Some True)"

definition unvisited :: "hexgrid \<Rightarrow> (nat \<times> nat) set" where
  "unvisited s = {(y, x). in_bounds s y x \<and> \<not> marked s y x}"

definition keeps :: "hexgrid \<Rightarrow> hexgrid \<Rightarrow> bool" where
  "keeps s s' = (H s' = H s \<and> W s' = W s \<and> grid s' = grid s \<and>
                 hexgrid.more s' = hexgrid.more s \<and>
                 (\<forall>a b. marked s a b \<longrightarrow> marked s' a b))"

definition call_measure ::
  "nat \<times> nat \<times> hexgrid \<times> nat + nat \<times> nat \<times> nat \<times> hexgrid \<times> nat \<Rightarrow> nat \<times> nat" where
  "call_measure c = (case c of
      Inl (y, x, s, n) \<Rightarrow> (card (unvisited s), if in_bounds s y x then 0 else 8)
    | Inr (d, y, x, s, n) \<Rightarrow> (card (unvisited s), 7 - d))"

text \<open>
  \<open>probe\<close> is the entry that one turn of the loop adds, \<open>cell_edges s y x d\<close> the entries
  that the loop at \<open>(y, x)\<close> adds from direction \<open>d\<close> on, and \<open>grows\<close> what a call of the
  search does: it marks new cells, all of them reachable and with all their empty
  neighbours marked in the end, and appends the entries of exactly these cells, each once.
\<close>

definition wf_visited :: "hexgrid \<Rightarrow> bool" where
  "wf_visited s = (length (isVisited s) = nat (H s + 2) \<and>
                   list_all (\<lambda>r. length r = nat (W s + 2)) (isVisited s))"

definition probe :: "hexgrid \<Rightarrow> nat \<Rightarrow> nat \<Rightarrow> nat \<Rightarrow> edge list" where
  "probe s y x d =
     (case nbr s y x d of
        None \<Rightarrow> []
      | Some (ny, nx) \<Rightarrow>
          if filled s ny nx then [\<lparr>ex = nx, ey = ny, dir = (d + 3) mod 6\<rparr>] else [])"

definition cell_edges :: "hexgrid \<Rightarrow> nat \<Rightarrow> nat \<Rightarrow> nat \<Rightarrow> edge list" where
  "cell_edges s y x d0 = concat (map (probe s y x) [d0..<6])"

definition nb :: "nat \<Rightarrow> nat \<Rightarrow> nat \<Rightarrow> int \<times> int" where
  "nb y x d = (int y + dy ! (y mod 2) ! d, int x + dx ! (y mod 2) ! d)"

definition fresh :: "hexgrid \<Rightarrow> hexgrid \<Rightarrow> (nat \<times> nat) set" where
  "fresh s s' = {(y, x). marked s' y x \<and> \<not> marked s y x}"

definition closed_at :: "hexgrid \<Rightarrow> hexgrid \<Rightarrow> nat \<Rightarrow> nat \<Rightarrow> bool" where
  "closed_at s s' y x =
     (\<forall>d y' x'. d < 6 \<longrightarrow> nbr s y x d = Some (y', x') \<longrightarrow> \<not> filled s y' x' \<longrightarrow> marked s' y' x')"

definition eset :: "hexgrid \<Rightarrow> nat \<times> nat \<Rightarrow> edge set" where
  "eset s p = set (cell_edges s (fst p) (snd p) 0)"

definition grows :: "hexgrid \<Rightarrow> nat \<Rightarrow> edge list \<Rightarrow> hexgrid \<Rightarrow> nat \<Rightarrow> bool" where
  "grows s c extra s' c' =
     (keeps s s' \<and> wf_visited s' \<and>
      (\<exists>new. perimeterEdges s' = perimeterEdges s @ new \<and> c' = c + length new \<and>
             distinct new \<and> set new = (\<Union>p \<in> fresh s s'. eset s p) \<union> set extra) \<and>
      (\<forall>p \<in> fresh s s'. in_bounds s (fst p) (snd p) \<and> \<not> filled s (fst p) (snd p) \<and>
           reach s (fst p) (snd p) \<and> closed_at s s' (fst p) (snd p)))"

text \<open>
  Two objects with the same W, H and grid.
\<close>

definition same_geo :: "hexgrid \<Rightarrow> hexgrid \<Rightarrow> bool" where
  "same_geo s s' = (H s' = H s \<and> W s' = W s \<and> grid s' = grid s)"

text \<open>
  The pair an entry of the edge list stands for, and executable readings of the border
  ring and of the filled cells.
\<close>

definition owner_pair :: "hexgrid \<Rightarrow> edge \<Rightarrow> (nat \<times> nat) \<times> (nat \<times> nat)" where
  "owner_pair s e = (the (nbr s (ey e) (ex e) (dir e)), (ey e, ex e))"

definition border_cells :: "hexgrid \<Rightarrow> (nat \<times> nat) list" where
  "border_cells s =
     [(y, x). y \<leftarrow> [0..<nat (H s + 2)], x \<leftarrow> [0..<nat (W s + 2)],
              y = 0 \<or> int y = H s + 1 \<or> x = 0 \<or> int x = W s + 1]"

text \<open>The measure that goes down with every call of the search on a bounded stack.\<close>

definition stack_measure ::
  "nat \<times> nat \<times> nat \<times> hexgrid \<times> nat + nat \<times> nat \<times> nat \<times> nat \<times> hexgrid \<times> nat \<Rightarrow> nat \<times> nat" where
  "stack_measure c = (case c of
      Inl (frames, y, x, s, n) \<Rightarrow> (frames, 0)
    | Inr (frames, d, y, x, s, n) \<Rightarrow> (frames, 7 - d))"

definition filled_cells :: "hexgrid \<Rightarrow> (nat \<times> nat) list" where
  "filled_cells s =
     [(y, x). y \<leftarrow> [0..<length (grid s)], x \<leftarrow> [0..<length (grid s ! y)], grid s ! y ! x = 1]"

section \<open>The search terminates\<close>

text \<open>
  Every call of \<open>dfs\<close> that reaches its loop marks a cell that was not marked, and no
  mark is ever removed: the number of unmarked cells inside the bounds that the loop
  checks goes down.
\<close>

lemma zero_neq_one_jsnum [simp]: "(0::jsnum) \<noteq> 1" "(1::jsnum) \<noteq> 0"
  by (simp_all add: zero_jsnum_def one_jsnum_def)

lemma Num_eq_one [simp]: "(Num n = 1) = (n = 1)" "(1 = Num n) = (n = 1)" "NaN \<noteq> 1"
  by (auto simp: one_jsnum_def)

lemma keeps_refl: "keeps s s"
  by (simp add: keeps_def)

lemma keeps_trans: "keeps s t \<Longrightarrow> keeps t u \<Longrightarrow> keeps s u"
  by (simp add: keeps_def)

lemma at2_mark_same: "y < length a \<Longrightarrow> at2 (mark a y x) y x = Some True"
  by (simp add: at2_def mark_def Let_def nth_append)

lemma at2_mark_keep:
  assumes "at2 a p q = Some True"
  shows "at2 (mark a y x) p q = Some True"
proof (cases "p = y")
  case True
  with assms show ?thesis
    by (auto simp: at2_def mark_def Let_def nth_append nth_list_update split: if_splits)
next
  case False
  with assms show ?thesis
    by (auto simp: at2_def mark_def split: if_splits)
qed

lemma keeps_mark: "keeps s (s\<lparr>isVisited := mark (isVisited s) y x\<rparr>)"
  by (simp add: keeps_def marked_def at2_mark_keep)

lemma keeps_push: "keeps s (s\<lparr>perimeterEdges := es\<rparr>)"
  by (simp add: keeps_def marked_def)

lemma finite_unvisited: "finite (unvisited s)"
proof -
  have "unvisited s \<subseteq> {..nat (H s + 1)} \<times> {..nat (W s + 1)}"
    by (auto simp: unvisited_def in_bounds_def)
  then show ?thesis by (rule finite_subset) simp
qed

lemma keeps_unvisited: "keeps s s' \<Longrightarrow> card (unvisited s') \<le> card (unvisited s)"
  by (rule card_mono[OF finite_unvisited]) (auto simp: unvisited_def keeps_def in_bounds_def)

lemma mark_unvisited:
  assumes "has_row (isVisited s) y" "\<not> marked s y x" "in_bounds s y x"
  shows "card (unvisited (s\<lparr>isVisited := mark (isVisited s) y x\<rparr>)) < card (unvisited s)"
proof (rule psubset_card_mono[OF finite_unvisited])
  let ?s' = "s\<lparr>isVisited := mark (isVisited s) y x\<rparr>"
  have "(y, x) \<in> unvisited s" using assms by (simp add: unvisited_def)
  moreover have "(y, x) \<notin> unvisited ?s'"
    using assms(1) by (simp add: unvisited_def marked_def at2_mark_same has_row_def)
  moreover have "unvisited ?s' \<subseteq> unvisited s"
    using keeps_mark[of s y x] by (auto simp: unvisited_def keeps_def in_bounds_def)
  ultimately show "unvisited ?s' \<subset> unvisited s" by blast
qed

lemma dfs_keeps_dom:
  "dfs_dfs_loop_dom (Inl (y, x, s, c)) \<Longrightarrow> dfs y x s c = Inr (s', c') \<Longrightarrow> keeps s s'"
  "dfs_dfs_loop_dom (Inr (d, y, x, s, c)) \<Longrightarrow> dfs_loop d y x s c = Inr (s', c') \<Longrightarrow> keeps s s'"
proof (induction y x s c and d y x s c arbitrary: s' c' and s' c' rule: dfs_dfs_loop.pinduct)
  case (1 y x s totalCount)
  then show ?case
    by (auto simp: dfs.psimps keeps_refl split: if_splits
             intro: keeps_trans[OF keeps_mark])
next
  case (2 d y x s totalCount)
  note unfold = dfs_loop.psimps[OF "2.hyps"]
  show ?case
  proof (cases "d < 6")
    case False
    with "2.prems" unfold show ?thesis by (simp add: keeps_refl)
  next
    case d: True
    define ny where "ny = int y + dy ! (y mod 2) ! d"
    define nx where "nx = int x + dx ! (y mod 2) ! d"
    show ?thesis
    proof (cases "ny < 0 \<or> nx < 0 \<or> ny > H s + 1 \<or> nx > W s + 1")
      case True
      with d "2.prems" unfold have "dfs_loop (d + 1) y x s totalCount = Inr (s', c')"
        by (simp add: ny_def nx_def Let_def)
      with "2.IH"(1)[OF d ny_def nx_def] True show ?thesis by simp
    next
      case guard: False
      show ?thesis
      proof (cases "has_row (grid s) (nat ny)")
        case False
        with d guard "2.prems" unfold show ?thesis
          by (simp add: ny_def nx_def Let_def)
      next
        case row: True
        show ?thesis
        proof (cases "at2 (grid s) (nat ny) (nat nx) = Some 1")
          case True
          let ?s1 = "s\<lparr>perimeterEdges := perimeterEdges s @
                       [\<lparr>ex = nat nx, ey = nat ny, dir = (d + 3) mod 6\<rparr>]\<rparr>"
          from True d guard row "2.prems" unfold
          have "dfs_loop (d + 1) y x ?s1 (totalCount + 1) = Inr (s', c')"
            by (simp add: ny_def nx_def Let_def)
          with "2.IH"(2)[OF d ny_def nx_def guard _ True] row have "keeps ?s1 s'" by simp
          with keeps_push show ?thesis by (rule keeps_trans)
        next
          case empty: False
          from empty d guard row "2.prems" unfold
          obtain s1 c1 where inner: "dfs (nat ny) (nat nx) s totalCount = Inr (s1, c1)"
            and rest: "dfs_loop (d + 1) y x s1 c1 = Inr (s', c')"
            by (auto simp: ny_def nx_def Let_def split: sum.splits)
          have "keeps s s1"
            using "2.IH"(3)[OF d ny_def nx_def guard _ empty inner] row by simp
          moreover have "keeps s1 s'"
            using "2.IH"(4)[OF d ny_def nx_def guard _ empty inner _ rest] row by simp
          ultimately show ?thesis by (rule keeps_trans)
        qed
      qed
    qed
  qed
qed

termination dfs
proof (relation "inv_image (less_than <*lex*> less_than) call_measure", goal_cases)
  case 1
  show ?case by (intro wf_inv_image wf_lex_prod wf_less_than)
next
  case (2 y x s totalCount)
  then show ?case
    using mark_unvisited[of s y x] keeps_unvisited[OF keeps_mark, of s y x]
    by (auto simp: call_measure_def marked_def)
next
  case (3 d y x s totalCount xa xb)
  then show ?case by (auto simp: call_measure_def)
next
  case (4 d y x s totalCount xa xb)
  then show ?case
    using keeps_unvisited[OF keeps_push]
    by (auto simp: call_measure_def unvisited_def in_bounds_def marked_def)
next
  case (5 d y x s totalCount xa xb)
  then show ?case by (auto simp: call_measure_def in_bounds_def)
next
  case (6 d y x s totalCount xa xb b xaa ya)
  then have "keeps s xaa" using dfs_keeps_dom(1) by metis
  from keeps_unvisited[OF this] 6 show ?case
    by (auto simp: call_measure_def)
qed

text \<open>
  On a bounded stack every call from the loop has the frames of its caller, and the call
  of the loop from \<open>dfs_stack\<close> has one frame less.
\<close>

termination dfs_stack
  by (relation "inv_image (less_than <*lex*> less_than) stack_measure")
     (auto simp: stack_measure_def intro!: wf_inv_image wf_lex_prod)

section \<open>Properties of the search\<close>

declare dfs.simps [simp del] dfs_loop.simps [simp del]

declare dfs_stack.simps [simp del] dfs_loop_stack.simps [simp del]

lemma nb_even:
  assumes "even y"
  shows "nb y x 0 = (int y, int x + 1)" "nb y x (Suc 0) = (int y + 1, int x)"
    "nb y x 2 = (int y + 1, int x - 1)" "nb y x 3 = (int y, int x - 1)"
    "nb y x 4 = (int y - 1, int x - 1)" "nb y x 5 = (int y - 1, int x)"
proof -
  from assms have "y mod 2 = 0" by presburger
  then show "nb y x 0 = (int y, int x + 1)" "nb y x (Suc 0) = (int y + 1, int x)"
    "nb y x 2 = (int y + 1, int x - 1)" "nb y x 3 = (int y, int x - 1)"
    "nb y x 4 = (int y - 1, int x - 1)" "nb y x 5 = (int y - 1, int x)"
    by (simp_all add: nb_def dx_def dy_def)
qed

lemma nb_odd:
  assumes "odd y"
  shows "nb y x 0 = (int y, int x + 1)" "nb y x (Suc 0) = (int y + 1, int x + 1)"
    "nb y x 2 = (int y + 1, int x)" "nb y x 3 = (int y, int x - 1)"
    "nb y x 4 = (int y - 1, int x)" "nb y x 5 = (int y - 1, int x + 1)"
proof -
  from assms have "y mod 2 = 1" by presburger
  then show "nb y x 0 = (int y, int x + 1)" "nb y x (Suc 0) = (int y + 1, int x + 1)"
    "nb y x 2 = (int y + 1, int x)" "nb y x 3 = (int y, int x - 1)"
    "nb y x 4 = (int y - 1, int x)" "nb y x 5 = (int y - 1, int x + 1)"
    by (simp_all add: nb_def dx_def dy_def)
qed

lemma parity_up: "int y' = int y + 1 \<Longrightarrow> even y' = odd y"
  by presburger

lemma parity_down: "int y' = int y - 1 \<Longrightarrow> even y' = odd y"
  by presburger

lemma nb_back:
  assumes d: "d < 6" and n: "nb y x d = (int y', int x')"
  shows "nb y' x' ((d + 3) mod 6) = (int y, int x)"
proof -
  from d consider "d = 0" | "d = 1" | "d = 2" | "d = 3" | "d = 4" | "d = 5" by arith
  then show ?thesis
  proof cases
    case 1
    show ?thesis
    proof (cases "even y")
      case True
      with n 1 have e: "int y' = int y" "int x' = int x + 1" by (simp_all add: nb_even)
      with True have "even y'" by simp
      with e 1 show ?thesis by (simp add: nb_even)
    next
      case False
      with n 1 have e: "int y' = int y" "int x' = int x + 1" by (simp_all add: nb_odd)
      with False have "odd y'" by simp
      with e 1 show ?thesis by (simp add: nb_odd)
    qed
  next
    case 2
    show ?thesis
    proof (cases "even y")
      case True
      with n 2 have e: "int y' = int y + 1" "int x' = int x" by (simp_all add: nb_even)
      with True have "odd y'" by (simp add: parity_up)
      with e 2 show ?thesis by (simp add: nb_odd)
    next
      case False
      with n 2 have e: "int y' = int y + 1" "int x' = int x + 1" by (simp_all add: nb_odd)
      with False have "even y'" by (simp add: parity_up)
      with e 2 show ?thesis by (simp add: nb_even)
    qed
  next
    case 3
    show ?thesis
    proof (cases "even y")
      case True
      with n 3 have e: "int y' = int y + 1" "int x' = int x - 1" by (simp_all add: nb_even)
      with True have "odd y'" by (simp add: parity_up)
      with e 3 show ?thesis by (simp add: nb_odd)
    next
      case False
      with n 3 have e: "int y' = int y + 1" "int x' = int x" by (simp_all add: nb_odd)
      with False have "even y'" by (simp add: parity_up)
      with e 3 show ?thesis by (simp add: nb_even)
    qed
  next
    case 4
    show ?thesis
    proof (cases "even y")
      case True
      with n 4 have e: "int y' = int y" "int x' = int x - 1" by (simp_all add: nb_even)
      with True have "even y'" by simp
      with e 4 show ?thesis by (simp add: nb_even)
    next
      case False
      with n 4 have e: "int y' = int y" "int x' = int x - 1" by (simp_all add: nb_odd)
      with False have "odd y'" by simp
      with e 4 show ?thesis by (simp add: nb_odd)
    qed
  next
    case 5
    show ?thesis
    proof (cases "even y")
      case True
      with n 5 have e: "int y' = int y - 1" "int x' = int x - 1" by (simp_all add: nb_even)
      with True have "odd y'" by (simp add: parity_down)
      with e 5 show ?thesis by (simp add: nb_odd)
    next
      case False
      with n 5 have e: "int y' = int y - 1" "int x' = int x" by (simp_all add: nb_odd)
      with False have "even y'" by (simp add: parity_down)
      with e 5 show ?thesis by (simp add: nb_even)
    qed
  next
    case 6
    show ?thesis
    proof (cases "even y")
      case True
      with n 6 have e: "int y' = int y - 1" "int x' = int x" by (simp_all add: nb_even)
      with True have "odd y'" by (simp add: parity_down)
      with e 6 show ?thesis by (simp add: nb_odd)
    next
      case False
      with n 6 have e: "int y' = int y - 1" "int x' = int x + 1" by (simp_all add: nb_odd)
      with False have "even y'" by (simp add: parity_down)
      with e 6 show ?thesis by (simp add: nb_even)
    qed
  qed
qed

lemma nbr_eq_Some:
  "nbr s y x d = Some (y', x') \<longleftrightarrow> nb y x d = (int y', int x') \<and> in_bounds s y' x'"
  by (auto simp: nbr_def nb_def Let_def in_bounds_def)

lemma nbr_back:
  assumes "in_bounds s y x" "d < 6" "nbr s y x d = Some (y', x')"
  shows "nbr s y' x' ((d + 3) mod 6) = Some (y, x)"
  using assms nb_back[of d y x y' x'] by (simp add: nbr_eq_Some)

lemma keeps_geo: "keeps s s' \<Longrightarrow> same_geo s s'"
  by (simp add: keeps_def same_geo_def)

lemma geo_filled: "same_geo s s' \<Longrightarrow> filled s' = filled s"
  by (simp add: same_geo_def filled_def fun_eq_iff)

lemma geo_nbr: "same_geo s s' \<Longrightarrow> nbr s' = nbr s"
  by (simp add: same_geo_def nbr_def fun_eq_iff)

lemma geo_in_bounds: "same_geo s s' \<Longrightarrow> in_bounds s' = in_bounds s"
  by (simp add: same_geo_def in_bounds_def fun_eq_iff)

lemma geo_wf_grid: "same_geo s s' \<Longrightarrow> wf_grid s' = wf_grid s"
  by (simp add: same_geo_def wf_grid_def)

lemma geo_probe: "same_geo s s' \<Longrightarrow> probe s' = probe s"
  by (auto simp: probe_def fun_eq_iff geo_nbr geo_filled split: option.splits)

lemma geo_cell_edges: "same_geo s s' \<Longrightarrow> cell_edges s' = cell_edges s"
  by (simp add: cell_edges_def fun_eq_iff geo_probe)

lemma geo_eset: "same_geo s s' \<Longrightarrow> eset s' = eset s"
  by (simp add: eset_def fun_eq_iff geo_cell_edges)

lemma geo_reach_imp:
  assumes "same_geo s s'" "reach s y x"
  shows "reach s' y x"
  using assms(2)
proof induction
  case start
  then show ?case using assms(1) by (simp add: reach.start geo_filled)
next
  case (step y x d y' x')
  then show ?case using assms(1) reach.step[of s' y x d y' x'] by (simp add: geo_filled geo_nbr)
qed

lemma same_geo_sym: "same_geo s s' \<Longrightarrow> same_geo s' s"
  by (simp add: same_geo_def)

lemma geo_reach: "same_geo s s' \<Longrightarrow> reach s' = reach s"
proof (intro ext iffI)
  fix y x assume "same_geo s s'" "reach s' y x"
  then show "reach s y x" using geo_reach_imp[OF same_geo_sym] by blast
next
  fix y x assume "same_geo s s'" "reach s y x"
  then show "reach s' y x" by (rule geo_reach_imp)
qed

lemma geo_closed_at: "same_geo s s' \<Longrightarrow> closed_at s' t = closed_at s t"
  by (simp add: closed_at_def fun_eq_iff geo_nbr geo_filled)

text \<open>The edges found at one cell.\<close>

lemma cell_edges_step: "d < 6 \<Longrightarrow> cell_edges s y x d = probe s y x d @ cell_edges s y x (d + 1)"
  by (simp add: cell_edges_def upt_conv_Cons)

lemma cell_edges_done: "6 \<le> d \<Longrightarrow> cell_edges s y x d = []"
  by (simp add: cell_edges_def)

lemma back_back: "d < 6 \<Longrightarrow> ((d + 3) mod 6 + 3) mod 6 = (d::nat)"
  by presburger

lemma back_inj: "d < 6 \<Longrightarrow> d' < 6 \<Longrightarrow> (d + 3) mod 6 = (d' + 3) mod 6 \<Longrightarrow> d = (d'::nat)"
  by (metis back_back)

lemma in_probe:
  "e \<in> set (probe s y x d) \<longleftrightarrow>
     nbr s y x d = Some (ey e, ex e) \<and> filled s (ey e) (ex e) \<and> dir e = (d + 3) mod 6 \<and>
     edge.more e = ()"
  by (cases e) (auto simp: probe_def split: option.splits)

lemma in_cell_edges:
  "e \<in> set (cell_edges s y x d0) \<longleftrightarrow> (\<exists>d. d0 \<le> d \<and> d < 6 \<and> e \<in> set (probe s y x d))"
  by (auto simp: cell_edges_def)

lemma edge_owner:
  assumes "e \<in> set (cell_edges s y x d0)" "in_bounds s y x"
  shows "dir e < 6 \<and> nbr s (ey e) (ex e) (dir e) = Some (y, x)"
proof -
  from assms(1) obtain d where d: "d < 6" and n: "nbr s y x d = Some (ey e, ex e)"
    and b: "dir e = (d + 3) mod 6"
    by (auto simp: in_cell_edges in_probe)
  from nbr_back[OF assms(2) d n] b show ?thesis by simp
qed

lemma eset_disjoint:
  assumes "e \<in> eset s p" "e \<in> eset s q" "in_bounds s (fst p) (snd p)" "in_bounds s (fst q) (snd q)"
  shows "p = q"
proof -
  have "nbr s (ey e) (ex e) (dir e) = Some (fst p, snd p)"
    using edge_owner[of e s "fst p" "snd p" 0] assms(1,3) by (simp add: eset_def)
  moreover have "nbr s (ey e) (ex e) (dir e) = Some (fst q, snd q)"
    using edge_owner[of e s "fst q" "snd q" 0] assms(2,4) by (simp add: eset_def)
  ultimately show ?thesis by (simp add: prod_eq_iff)
qed

lemma distinct_probe: "distinct (probe s y x d)"
  by (simp add: probe_def split: option.splits)

lemma distinct_cell_edges: "distinct (cell_edges s y x d0)"
proof (induction "6 - d0" arbitrary: d0)
  case 0
  then show ?case by (simp add: cell_edges_done)
next
  case (Suc n)
  then have d: "d0 < 6" by simp
  have "distinct (cell_edges s y x (d0 + 1))" using Suc by simp
  moreover have "set (probe s y x d0) \<inter> set (cell_edges s y x (d0 + 1)) = {}"
  proof -
    have False if "e \<in> set (probe s y x d0)" "e \<in> set (cell_edges s y x (d0 + 1))" for e
    proof -
      from that(2) obtain d' where "d0 + 1 \<le> d'" "d' < 6" "dir e = (d' + 3) mod 6"
        by (auto simp: in_cell_edges in_probe)
      moreover from that(1) have "dir e = (d0 + 3) mod 6" by (simp add: in_probe)
      ultimately show False using back_inj[of d0 d'] d by simp
    qed
    then show ?thesis by blast
  qed
  ultimately show ?case using d by (simp add: cell_edges_step distinct_probe)
qed

lemma wf_grid_row: "wf_grid s \<Longrightarrow> in_bounds s y x \<Longrightarrow> has_row (grid s) y"
  by (auto simp: wf_grid_def in_bounds_def has_row_def)

lemma wf_visited_row:
  "wf_visited s \<Longrightarrow> in_bounds s y x \<Longrightarrow> has_row (isVisited s) y \<and> x < length (isVisited s ! y)"
  by (auto simp: wf_visited_def in_bounds_def has_row_def list_all_length)

lemma wf_visited_mark:
  assumes "wf_visited s" "in_bounds s y x"
  shows "wf_visited (s\<lparr>isVisited := mark (isVisited s) y x\<rparr>)"
proof -
  from wf_visited_row[OF assms] have "y < length (isVisited s)" "x < length (isVisited s ! y)"
    by (simp_all add: has_row_def)
  with assms(1) show ?thesis
    by (auto simp: wf_visited_def mark_def Let_def list_all_length nth_list_update)
qed

lemma marked_mark:
  assumes "has_row (isVisited s) y"
  shows "marked (s\<lparr>isVisited := mark (isVisited s) y x\<rparr>) a b \<longleftrightarrow> marked s a b \<or> (a = y \<and> b = x)"
proof (cases "a = y")
  case False
  then show ?thesis by (simp add: marked_def at2_def mark_def)
next
  case True
  show ?thesis
  proof (cases "b = x")
    case True
    with \<open>a = y\<close> assms show ?thesis by (simp add: marked_def at2_mark_same has_row_def)
  next
    case False
    with \<open>a = y\<close> assms show ?thesis
      by (auto simp: marked_def at2_def mark_def Let_def has_row_def nth_append nth_list_update
               split: if_splits)
  qed
qed

lemma grows_refl: "wf_visited s \<Longrightarrow> grows s c [] s c"
  by (simp add: grows_def keeps_refl fresh_def)

lemma closed_at_mono: "closed_at s t y x \<Longrightarrow> keeps t t' \<Longrightarrow> closed_at s t' y x"
  by (simp add: closed_at_def keeps_def)

lemma grows_enter:
  assumes row: "has_row (isVisited s) y" and nm: "\<not> marked s y x"
    and ib: "in_bounds s y x" and nf: "\<not> filled s y x" and r: "reach s y x"
    and s1: "s1 = s\<lparr>isVisited := mark (isVisited s) y x\<rparr>"
    and loop: "grows s1 c (cell_edges s1 y x 0) s' c'"
    and cl: "closed_at s1 s' y x"
  shows "grows s c [] s' c' \<and> marked s' y x"
proof -
  have k1: "keeps s s1" unfolding s1 by (rule keeps_mark)
  then have g: "same_geo s s1" by (rule keeps_geo)
  from loop have k2: "keeps s1 s'" by (simp add: grows_def)
  have m1: "marked s1 a b \<longleftrightarrow> marked s a b \<or> (a = y \<and> b = x)" for a b
    unfolding s1 by (rule marked_mark[OF row])
  have m': "marked s' y x" using k2 m1 by (simp add: keeps_def)
  have fr: "fresh s s' = insert (y, x) (fresh s1 s')"
    using m1 m' nm by (auto simp: fresh_def)
  from loop obtain new where new: "perimeterEdges s' = perimeterEdges s1 @ new"
    "c' = c + length new" "distinct new"
    "set new = (\<Union>p \<in> fresh s1 s'. eset s1 p) \<union> set (cell_edges s1 y x 0)"
    by (auto simp: grows_def)
  have "perimeterEdges s1 = perimeterEdges s" by (simp add: s1)
  moreover have "set new = (\<Union>p \<in> fresh s s'. eset s p)"
    using new(4) by (simp add: fr geo_eset[OF g] geo_cell_edges[OF g] eset_def Un_commute)
  ultimately have E: "\<exists>new. perimeterEdges s' = perimeterEdges s @ new \<and> c' = c + length new \<and>
             distinct new \<and> set new = (\<Union>p \<in> fresh s s'. eset s p) \<union> set []"
    using new by auto
  have old: "\<forall>p \<in> fresh s1 s'. in_bounds s (fst p) (snd p) \<and> \<not> filled s (fst p) (snd p) \<and>
           reach s (fst p) (snd p) \<and> closed_at s s' (fst p) (snd p)"
    using loop by (simp add: grows_def geo_in_bounds[OF g] geo_filled[OF g] geo_reach[OF g]
        geo_closed_at[OF g])
  have "closed_at s s' y x" using cl by (simp add: geo_closed_at[OF g])
  with old ib nf r have P: "\<forall>p \<in> fresh s s'. in_bounds s (fst p) (snd p) \<and>
      \<not> filled s (fst p) (snd p) \<and> reach s (fst p) (snd p) \<and> closed_at s s' (fst p) (snd p)"
    by (simp add: fr)
  from loop have "wf_visited s'" by (simp add: grows_def)
  with keeps_trans[OF k1 k2] E P m' show ?thesis unfolding grows_def by blast
qed

lemma grows_push:
  assumes s1: "s1 = s\<lparr>perimeterEdges := perimeterEdges s @ [e]\<rparr>"
    and pr: "probe s y x d = [e]" and d: "d < 6" and m: "marked s y x" and ib: "in_bounds s y x"
    and rest: "grows s1 (c + 1) (cell_edges s1 y x (d + 1)) s' c'"
  shows "grows s c (cell_edges s y x d) s' c'"
proof -
  have k1: "keeps s s1" unfolding s1 by (rule keeps_push)
  then have g: "same_geo s s1" by (rule keeps_geo)
  from rest have k2: "keeps s1 s'" by (simp add: grows_def)
  have fr: "fresh s s' = fresh s1 s'" by (simp add: fresh_def s1 marked_def)
  from rest obtain new where new: "perimeterEdges s' = perimeterEdges s1 @ new"
    "c' = c + 1 + length new" "distinct new"
    "set new = (\<Union>p \<in> fresh s1 s'. eset s1 p) \<union> set (cell_edges s1 y x (d + 1))"
    by (auto simp: grows_def)
  have P: "\<forall>p \<in> fresh s s'. in_bounds s (fst p) (snd p) \<and> \<not> filled s (fst p) (snd p) \<and>
           reach s (fst p) (snd p) \<and> closed_at s s' (fst p) (snd p)"
    using rest by (simp add: grows_def fr geo_in_bounds[OF g] geo_filled[OF g] geo_reach[OF g]
        geo_closed_at[OF g])
  have ce: "cell_edges s y x d = e # cell_edges s y x (d + 1)"
    by (simp add: cell_edges_step[OF d] pr)
  have e0: "e \<in> eset s (y, x)"
    using pr d by (auto simp: eset_def in_cell_edges)
  have "e \<notin> set new"
  proof
    assume "e \<in> set new"
    then consider p where "p \<in> fresh s s'" "e \<in> eset s p" | "e \<in> set (cell_edges s y x (d + 1))"
      using new(4) by (auto simp: fr geo_eset[OF g] geo_cell_edges[OF g])
    then show False
    proof cases
      case 1
      with P have "in_bounds s (fst p) (snd p)" by blast
      from eset_disjoint[OF 1(2) e0 this] ib have "p = (y, x)" by simp
      with 1(1) m show False by (simp add: fresh_def)
    next
      case 2
      with distinct_cell_edges[of s y x d] show False by (simp add: ce)
    qed
  qed
  then have "distinct (e # new)" using new(3) by simp
  moreover have "perimeterEdges s' = perimeterEdges s @ (e # new)"
    using new(1) by (simp add: s1)
  moreover have "c' = c + length (e # new)" using new(2) by simp
  moreover have "set (e # new) = (\<Union>p \<in> fresh s s'. eset s p) \<union> set (cell_edges s y x d)"
    using new(4) by (simp add: ce fr geo_eset[OF g] geo_cell_edges[OF g])
  ultimately have E: "\<exists>new. perimeterEdges s' = perimeterEdges s @ new \<and> c' = c + length new \<and>
      distinct new \<and> set new = (\<Union>p \<in> fresh s s'. eset s p) \<union> set (cell_edges s y x d)"
    by blast
  from rest have "wf_visited s'" by (simp add: grows_def)
  with keeps_trans[OF k1 k2] E P show ?thesis unfolding grows_def by blast
qed

lemma grows_trans:
  assumes first: "grows s c [] s1 c1" and rest: "grows s1 c1 extra s' c'"
    and ex: "set extra \<subseteq> eset s (y, x)" and m: "marked s y x" and ib: "in_bounds s y x"
  shows "grows s c extra s' c'"
proof -
  from first have k1: "keeps s s1" by (simp add: grows_def)
  then have g: "same_geo s s1" by (rule keeps_geo)
  from rest have k2: "keeps s1 s'" by (simp add: grows_def)
  have fr: "fresh s s' = fresh s s1 \<union> fresh s1 s'"
    using k1 k2 by (auto simp: fresh_def keeps_def)
  have dj: "fresh s s1 \<inter> fresh s1 s' = {}" by (auto simp: fresh_def)
  from first obtain new1 where new1: "perimeterEdges s1 = perimeterEdges s @ new1"
    "c1 = c + length new1" "distinct new1" "set new1 = (\<Union>p \<in> fresh s s1. eset s p)"
    by (auto simp: grows_def)
  from rest obtain new2 where new2: "perimeterEdges s' = perimeterEdges s1 @ new2"
    "c' = c1 + length new2" "distinct new2"
    "set new2 = (\<Union>p \<in> fresh s1 s'. eset s p) \<union> set extra"
    by (auto simp: grows_def geo_eset[OF g])
  have P1: "\<forall>p \<in> fresh s s1. in_bounds s (fst p) (snd p) \<and> \<not> filled s (fst p) (snd p) \<and>
           reach s (fst p) (snd p) \<and> closed_at s s1 (fst p) (snd p)"
    using first by (simp add: grows_def)
  have P2: "\<forall>p \<in> fresh s1 s'. in_bounds s (fst p) (snd p) \<and> \<not> filled s (fst p) (snd p) \<and>
           reach s (fst p) (snd p) \<and> closed_at s s' (fst p) (snd p)"
    using rest by (simp add: grows_def geo_in_bounds[OF g] geo_filled[OF g] geo_reach[OF g]
        geo_closed_at[OF g])
  have P: "\<forall>p \<in> fresh s s'. in_bounds s (fst p) (snd p) \<and> \<not> filled s (fst p) (snd p) \<and>
           reach s (fst p) (snd p) \<and> closed_at s s' (fst p) (snd p)"
    using P1 P2 closed_at_mono[OF _ k2] unfolding fr by blast
  have "set new1 \<inter> set new2 = {}"
  proof -
    have False if a: "e \<in> set new1" and b: "e \<in> set new2" for e
    proof -
      from a new1(4) obtain p where p: "p \<in> fresh s s1" "e \<in> eset s p" by auto
      with P1 have pb: "in_bounds s (fst p) (snd p)" by blast
      from b new2(4) consider q where "q \<in> fresh s1 s'" "e \<in> eset s q" | "e \<in> set extra"
        by auto
      then show False
      proof cases
        case 1
        with P2 have "in_bounds s (fst q) (snd q)" by blast
        from eset_disjoint[OF p(2) 1(2) pb this] p(1) 1(1) dj show False by blast
      next
        case 2
        with ex have "e \<in> eset s (y, x)" by blast
        from eset_disjoint[OF p(2) this pb] ib have "p = (y, x)" by simp
        with p(1) m show False by (simp add: fresh_def)
      qed
    qed
    then show ?thesis by blast
  qed
  then have "distinct (new1 @ new2)" using new1(3) new2(3) by simp
  moreover have "perimeterEdges s' = perimeterEdges s @ (new1 @ new2)"
    using new1(1) new2(1) by simp
  moreover have "c' = c + length (new1 @ new2)" using new1(2) new2(2) by simp
  moreover have "set (new1 @ new2) = (\<Union>p \<in> fresh s s'. eset s p) \<union> set extra"
    using new1(4) new2(4) by (auto simp: fr)
  ultimately have E: "\<exists>new. perimeterEdges s' = perimeterEdges s @ new \<and> c' = c + length new \<and>
      distinct new \<and> set new = (\<Union>p \<in> fresh s s'. eset s p) \<union> set extra"
    by blast
  from rest have "wf_visited s'" by (simp add: grows_def)
  with keeps_trans[OF k1 k2] E P show ?thesis unfolding grows_def by blast
qed

lemma nbr_None:
  "nbr s y x d = None \<longleftrightarrow>
     (let ny = int y + dy ! (y mod 2) ! d; nx = int x + dx ! (y mod 2) ! d
      in ny < 0 \<or> nx < 0 \<or> ny > H s + 1 \<or> nx > W s + 1)"
  by (simp add: nbr_def Let_def)

lemma nbr_Some_raw:
  assumes "ny = int y + dy ! (y mod 2) ! d" "nx = int x + dx ! (y mod 2) ! d"
    "\<not> (ny < 0 \<or> nx < 0 \<or> ny > H s + 1 \<or> nx > W s + 1)"
  shows "nbr s y x d = Some (nat ny, nat nx)" "in_bounds s (nat ny) (nat nx)"
  using assms by (simp_all add: nbr_def Let_def in_bounds_def)

lemma dfs_grows:
  "wf_grid s \<Longrightarrow> wf_visited s \<Longrightarrow> in_bounds s y x \<Longrightarrow> (\<not> filled s y x \<longrightarrow> reach s y x) \<Longrightarrow>
     \<exists>s' c'. dfs y x s c = Inr (s', c') \<and> grows s c [] s' c' \<and> (\<not> filled s y x \<longrightarrow> marked s' y x)"
  "wf_grid s \<Longrightarrow> wf_visited s \<Longrightarrow> in_bounds s y x \<Longrightarrow> reach s y x \<Longrightarrow> marked s y x \<Longrightarrow>
     \<exists>s' c'. dfs_loop d y x s c = Inr (s', c') \<and> grows s c (cell_edges s y x d) s' c' \<and>
       (\<forall>d' y' x'. d \<le> d' \<longrightarrow> d' < 6 \<longrightarrow> nbr s y x d' = Some (y', x') \<longrightarrow> \<not> filled s y' x'
           \<longrightarrow> marked s' y' x')"
proof (induction y x s c and d y x s c rule: dfs_dfs_loop.induct)
  case (1 y x s totalCount)
  note wf = "1.prems"(1) and wv = "1.prems"(2) and ib = "1.prems"(3) and re = "1.prems"(4)
  have gr: "has_row (grid s) y" using wf ib by (rule wf_grid_row)
  have vr: "has_row (isVisited s) y" using wf_visited_row[OF wv ib] by simp
  show ?case
  proof (cases "filled s y x")
    case True
    then have "dfs y x s totalCount = Inr (s, totalCount)"
      using gr by (simp add: dfs.simps filled_def)
    with True grows_refl[OF wv] show ?thesis by simp
  next
    case nf: False
    show ?thesis
    proof (cases "marked s y x")
      case True
      then have "dfs y x s totalCount = Inr (s, totalCount)"
        using gr vr by (simp add: dfs.simps marked_def)
      with True grows_refl[OF wv] show ?thesis by simp
    next
      case nm: False
      define s1 where "s1 = s\<lparr>isVisited := mark (isVisited s) y x\<rparr>"
      have run: "dfs y x s totalCount = dfs_loop 0 y x s1 totalCount"
        using gr vr nf nm by (simp add: dfs.simps[of y x s] filled_def marked_def s1_def)
      have g: "same_geo s s1" unfolding s1_def by (rule keeps_geo[OF keeps_mark])
      have "\<exists>s' c'. dfs_loop 0 y x s1 totalCount = Inr (s', c') \<and>
          grows s1 totalCount (cell_edges s1 y x 0) s' c' \<and>
          (\<forall>d' y' x'. 0 \<le> d' \<longrightarrow> d' < 6 \<longrightarrow> nbr s1 y x d' = Some (y', x') \<longrightarrow> \<not> filled s1 y' x'
             \<longrightarrow> marked s' y' x')"
        unfolding s1_def
      proof (rule "1.IH")
        show "\<not> \<not> has_row (grid s) y" using gr by simp
        show "at2 (grid s) y x \<noteq> Some 1" using nf by (simp add: filled_def)
        show "\<not> \<not> has_row (isVisited s) y" using vr by simp
        show "at2 (isVisited s) y x \<noteq> Some True" using nm by (simp add: marked_def)
        show "wf_grid (s\<lparr>isVisited := mark (isVisited s) y x\<rparr>)"
          using wf g by (simp add: geo_wf_grid s1_def)
        show "wf_visited (s\<lparr>isVisited := mark (isVisited s) y x\<rparr>)"
          using wv ib by (rule wf_visited_mark)
        show "in_bounds (s\<lparr>isVisited := mark (isVisited s) y x\<rparr>) y x"
          using ib by (simp add: in_bounds_def)
        show "reach (s\<lparr>isVisited := mark (isVisited s) y x\<rparr>) y x"
          using re nf geo_reach[OF g] by (simp add: s1_def)
        show "marked (s\<lparr>isVisited := mark (isVisited s) y x\<rparr>) y x"
          using marked_mark[OF vr] by simp
      qed
      then obtain s' c' where res: "dfs_loop 0 y x s1 totalCount = Inr (s', c')"
        and gl: "grows s1 totalCount (cell_edges s1 y x 0) s' c'"
        and cl: "closed_at s1 s' y x"
        by (auto simp: closed_at_def)
      from grows_enter[OF vr nm ib nf _ s1_def gl cl] re nf run res show ?thesis by simp
    qed
  qed
next
  case (2 d y x s totalCount)
  note wf = "2.prems"(1) and wv = "2.prems"(2) and ib = "2.prems"(3) and re = "2.prems"(4)
    and mk = "2.prems"(5)
  show ?case
  proof (cases "d < 6")
    case False
    then have "dfs_loop d y x s totalCount = Inr (s, totalCount)"
      by (simp add: dfs_loop.simps[of d])
    with False grows_refl[OF wv] show ?thesis by (simp add: cell_edges_done)
  next
    case d: True
    define ny where "ny = int y + dy ! (y mod 2) ! d"
    define nx where "nx = int x + dx ! (y mod 2) ! d"
    show ?thesis
    proof (cases "ny < 0 \<or> nx < 0 \<or> ny > H s + 1 \<or> nx > W s + 1")
      case True
      then have none: "nbr s y x d = None" by (simp add: nbr_None ny_def nx_def Let_def)
      have run: "dfs_loop d y x s totalCount = dfs_loop (d + 1) y x s totalCount"
        using d True by (simp add: dfs_loop.simps[of d] ny_def nx_def Let_def)
      have ce: "cell_edges s y x d = cell_edges s y x (d + 1)"
        by (simp add: cell_edges_step[OF d] probe_def none)
      from "2.IH"(1)[OF d ny_def nx_def True wf wv ib re mk]
      obtain s' c' where res: "dfs_loop (d + 1) y x s totalCount = Inr (s', c')"
        and gl: "grows s totalCount (cell_edges s y x (d + 1)) s' c'"
        and cl: "\<forall>d' y' x'. d + 1 \<le> d' \<longrightarrow> d' < 6 \<longrightarrow> nbr s y x d' = Some (y', x') \<longrightarrow>
                   \<not> filled s y' x' \<longrightarrow> marked s' y' x'"
        by blast
      have "\<forall>d' y' x'. d \<le> d' \<longrightarrow> d' < 6 \<longrightarrow> nbr s y x d' = Some (y', x') \<longrightarrow>
                   \<not> filled s y' x' \<longrightarrow> marked s' y' x'"
      proof (intro allI impI)
        fix d' y' x'
        assume a: "d \<le> d'" "d' < 6" "nbr s y x d' = Some (y', x')" "\<not> filled s y' x'"
        with none have "d' \<noteq> d" by auto
        with a have "d + 1 \<le> d'" by simp
        with a cl show "marked s' y' x'" by blast
      qed
      with run res gl ce show ?thesis by simp
    next
      case guard: False
      note nb = nbr_Some_raw[OF ny_def nx_def guard]
      have gr: "has_row (grid s) (nat ny)" using wf nb(2) by (rule wf_grid_row)
      show ?thesis
      proof (cases "filled s (nat ny) (nat nx)")
        case True
        define e where "e = \<lparr>ex = nat nx, ey = nat ny, dir = (d + 3) mod 6\<rparr>"
        define s1 where "s1 = s\<lparr>perimeterEdges := perimeterEdges s @ [e]\<rparr>"
        have g: "same_geo s s1" unfolding s1_def by (rule keeps_geo[OF keeps_push])
        have run: "dfs_loop d y x s totalCount = dfs_loop (d + 1) y x s1 (totalCount + 1)"
          using d guard gr True
          by (simp add: dfs_loop.simps[of d] ny_def nx_def Let_def filled_def s1_def e_def)
        have pr: "probe s y x d = [e]" using nb(1) True by (simp add: probe_def e_def)
        have at: "at2 (grid s) (nat ny) (nat nx) = Some 1" using True by (simp add: filled_def)
        have "\<exists>s' c'. dfs_loop (d + 1) y x s1 (totalCount + 1) = Inr (s', c') \<and>
           grows s1 (totalCount + 1) (cell_edges s1 y x (d + 1)) s' c' \<and>
           (\<forall>d' y' x'. d + 1 \<le> d' \<longrightarrow> d' < 6 \<longrightarrow> nbr s1 y x d' = Some (y', x') \<longrightarrow>
                   \<not> filled s1 y' x' \<longrightarrow> marked s' y' x')"
          unfolding s1_def e_def
        proof (rule "2.IH"(2)[OF d ny_def nx_def guard _ at])
          show "\<not> \<not> has_row (grid s) (nat ny)" using gr by simp
          show "wf_grid (s\<lparr>perimeterEdges := perimeterEdges s @
              [\<lparr>ex = nat nx, ey = nat ny, dir = (d + 3) mod 6\<rparr>]\<rparr>)"
            using wf by (simp add: wf_grid_def)
          show "wf_visited (s\<lparr>perimeterEdges := perimeterEdges s @
              [\<lparr>ex = nat nx, ey = nat ny, dir = (d + 3) mod 6\<rparr>]\<rparr>)"
            using wv by (simp add: wf_visited_def)
          show "in_bounds (s\<lparr>perimeterEdges := perimeterEdges s @
              [\<lparr>ex = nat nx, ey = nat ny, dir = (d + 3) mod 6\<rparr>]\<rparr>) y x"
            using ib by (simp add: in_bounds_def)
          show "reach (s\<lparr>perimeterEdges := perimeterEdges s @
              [\<lparr>ex = nat nx, ey = nat ny, dir = (d + 3) mod 6\<rparr>]\<rparr>) y x"
            using re geo_reach[OF g] by (simp add: s1_def e_def)
          show "marked (s\<lparr>perimeterEdges := perimeterEdges s @
              [\<lparr>ex = nat nx, ey = nat ny, dir = (d + 3) mod 6\<rparr>]\<rparr>) y x"
            using mk by (simp add: marked_def)
        qed
        then obtain s' c' where res: "dfs_loop (d + 1) y x s1 (totalCount + 1) = Inr (s', c')"
          and gl: "grows s1 (totalCount + 1) (cell_edges s1 y x (d + 1)) s' c'"
          and cl: "\<forall>d' y' x'. d + 1 \<le> d' \<longrightarrow> d' < 6 \<longrightarrow> nbr s y x d' = Some (y', x') \<longrightarrow>
                   \<not> filled s y' x' \<longrightarrow> marked s' y' x'"
          by (auto simp: geo_nbr[OF g] geo_filled[OF g])
        have "\<forall>d' y' x'. d \<le> d' \<longrightarrow> d' < 6 \<longrightarrow> nbr s y x d' = Some (y', x') \<longrightarrow>
                   \<not> filled s y' x' \<longrightarrow> marked s' y' x'"
        proof (intro allI impI)
          fix d' y' x'
          assume a: "d \<le> d'" "d' < 6" "nbr s y x d' = Some (y', x')" "\<not> filled s y' x'"
          with nb(1) True have "d' \<noteq> d" by auto
          with a have "d + 1 \<le> d'" by simp
          with a cl show "marked s' y' x'" by blast
        qed
        with run res grows_push[OF s1_def pr d mk ib gl] show ?thesis by simp
      next
        case nf: False
        have at: "at2 (grid s) (nat ny) (nat nx) \<noteq> Some 1" using nf by (simp add: filled_def)
        have r1: "reach s (nat ny) (nat nx)" using re d nb(1) nf by (rule reach.step)
        from "2.IH"(3)[OF d ny_def nx_def guard _ at wf wv nb(2)] gr r1
        obtain s1 c1 where inner: "dfs (nat ny) (nat nx) s totalCount = Inr (s1, c1)"
          and g1: "grows s totalCount [] s1 c1" and m1: "marked s1 (nat ny) (nat nx)"
          using nf by auto
        from g1 have k1: "keeps s s1" and wv1: "wf_visited s1" by (simp_all add: grows_def)
        have g: "same_geo s s1" using k1 by (rule keeps_geo)
        have run: "dfs_loop d y x s totalCount = dfs_loop (d + 1) y x s1 c1"
          using d guard gr nf inner
          by (simp add: dfs_loop.simps[of d] ny_def nx_def Let_def filled_def)
        have "\<exists>s' c'. dfs_loop (d + 1) y x s1 c1 = Inr (s', c') \<and>
           grows s1 c1 (cell_edges s1 y x (d + 1)) s' c' \<and>
           (\<forall>d' y' x'. d + 1 \<le> d' \<longrightarrow> d' < 6 \<longrightarrow> nbr s1 y x d' = Some (y', x') \<longrightarrow>
                   \<not> filled s1 y' x' \<longrightarrow> marked s' y' x')"
        proof (rule "2.IH"(4)[OF d ny_def nx_def guard _ at inner])
          show "\<not> \<not> has_row (grid s) (nat ny)" using gr by simp
          show "(s1, c1) = (s1, c1)" by simp
          show "wf_grid s1" using wf by (simp add: geo_wf_grid[OF g])
          show "wf_visited s1" by (rule wv1)
          show "in_bounds s1 y x" using ib by (simp add: geo_in_bounds[OF g])
          show "reach s1 y x" using re by (simp add: geo_reach[OF g])
          show "marked s1 y x" using mk k1 by (simp add: keeps_def)
        qed
        then obtain s' c' where res: "dfs_loop (d + 1) y x s1 c1 = Inr (s', c')"
          and gl: "grows s1 c1 (cell_edges s y x (d + 1)) s' c'"
          and cl: "\<forall>d' y' x'. d + 1 \<le> d' \<longrightarrow> d' < 6 \<longrightarrow> nbr s y x d' = Some (y', x') \<longrightarrow>
                   \<not> filled s y' x' \<longrightarrow> marked s' y' x'"
          by (auto simp: geo_nbr[OF g] geo_filled[OF g] geo_cell_edges[OF g])
        from gl have k2: "keeps s1 s'" by (simp add: grows_def)
        have sub: "set (cell_edges s y x (d + 1)) \<subseteq> eset s (y, x)"
          by (auto simp: eset_def in_cell_edges)
        have ce: "cell_edges s y x d = cell_edges s y x (d + 1)"
          using nb(1) nf by (simp add: cell_edges_step[OF d] probe_def)
        have "\<forall>d' y' x'. d \<le> d' \<longrightarrow> d' < 6 \<longrightarrow> nbr s y x d' = Some (y', x') \<longrightarrow>
                   \<not> filled s y' x' \<longrightarrow> marked s' y' x'"
        proof (intro allI impI)
          fix d' y' x'
          assume a: "d \<le> d'" "d' < 6" "nbr s y x d' = Some (y', x')" "\<not> filled s y' x'"
          show "marked s' y' x'"
          proof (cases "d' = d")
            case True
            with a nb(1) have "y' = nat ny" "x' = nat nx" by simp_all
            with m1 k2 show ?thesis by (simp add: keeps_def)
          next
            case False
            with a have "d + 1 \<le> d'" by simp
            with a cl show ?thesis by blast
          qed
        qed
        with run res grows_trans[OF g1 gl sub mk ib] ce show ?thesis by simp
      qed
    qed
  qed
qed

lemma keeps_frame:
  "keeps s s' \<Longrightarrow> s' = s\<lparr>isVisited := isVisited s', perimeterEdges := perimeterEdges s'\<rparr>"
  by (cases s, cases s') (simp add: keeps_def)

lemma dfs_keeps:
  "dfs y x s c = Inr (s', c') \<Longrightarrow> keeps s s'"
  "dfs_loop d y x s c = Inr (s', c') \<Longrightarrow> keeps s s'"
proof (induction y x s c and d y x s c arbitrary: s' c' and s' c' rule: dfs_dfs_loop.induct)
  case (1 y x s totalCount)
  then show ?case
    by (auto simp: dfs.simps[of y x s] keeps_refl split: if_splits
             intro: keeps_trans[OF keeps_mark])
next
  case (2 d y x s totalCount)
  note unfold = dfs_loop.simps[of d y x s totalCount]
  show ?case
  proof (cases "d < 6")
    case False
    with "2.prems" unfold show ?thesis by (simp add: keeps_refl)
  next
    case d: True
    define ny where "ny = int y + dy ! (y mod 2) ! d"
    define nx where "nx = int x + dx ! (y mod 2) ! d"
    show ?thesis
    proof (cases "ny < 0 \<or> nx < 0 \<or> ny > H s + 1 \<or> nx > W s + 1")
      case True
      with d "2.prems" unfold have "dfs_loop (d + 1) y x s totalCount = Inr (s', c')"
        by (simp add: ny_def nx_def Let_def)
      with "2.IH"(1)[OF d ny_def nx_def] True show ?thesis by simp
    next
      case guard: False
      show ?thesis
      proof (cases "has_row (grid s) (nat ny)")
        case False
        with d guard "2.prems" unfold show ?thesis
          by (simp add: ny_def nx_def Let_def)
      next
        case row: True
        show ?thesis
        proof (cases "at2 (grid s) (nat ny) (nat nx) = Some 1")
          case True
          let ?s1 = "s\<lparr>perimeterEdges := perimeterEdges s @
                       [\<lparr>ex = nat nx, ey = nat ny, dir = (d + 3) mod 6\<rparr>]\<rparr>"
          from True d guard row "2.prems" unfold
          have "dfs_loop (d + 1) y x ?s1 (totalCount + 1) = Inr (s', c')"
            by (simp add: ny_def nx_def Let_def)
          with "2.IH"(2)[OF d ny_def nx_def guard _ True] row have "keeps ?s1 s'" by simp
          with keeps_push show ?thesis by (rule keeps_trans)
        next
          case empty: False
          from empty d guard row "2.prems" unfold
          obtain s1 c1 where inner: "dfs (nat ny) (nat nx) s totalCount = Inr (s1, c1)"
            and rest: "dfs_loop (d + 1) y x s1 c1 = Inr (s', c')"
            by (auto simp: ny_def nx_def Let_def split: sum.splits)
          have "keeps s s1"
            using "2.IH"(3)[OF d ny_def nx_def guard _ empty inner] row by simp
          moreover have "keeps s1 s'"
            using "2.IH"(4)[OF d ny_def nx_def guard _ empty inner _ rest] row by simp
          ultimately show ?thesis by (rule keeps_trans)
        qed
      qed
    qed
  qed
qed

text \<open>The trace depends on W, H and the grid only, and changes the two trace fields only.\<close>

lemma computePerimeter_frame:
  assumes "computePerimeter s = Inr (n, s')"
  shows "s' = s\<lparr>isVisited := isVisited s', perimeterEdges := perimeterEdges s'\<rparr>"
proof -
  from assms obtain v where v: "new_matrix (H s + 2) (W s + 2) False = Inr v"
    and r: "dfs 0 0 (s\<lparr>isVisited := v, perimeterEdges := []\<rparr>) 0 = Inr (s', n)"
    by (auto simp: computePerimeter_def split: sum.splits)
  from keeps_frame[OF dfs_keeps(1)[OF r]] show ?thesis by simp
qed

lemma computePerimeter_again:
  assumes "computePerimeter s = Inr (n, s')"
  shows "computePerimeter s' = Inr (n, s')"
proof -
  from assms obtain v where v: "new_matrix (H s + 2) (W s + 2) False = Inr v"
    and r: "dfs 0 0 (s\<lparr>isVisited := v, perimeterEdges := []\<rparr>) 0 = Inr (s', n)"
    by (auto simp: computePerimeter_def split: sum.splits)
  have k: "keeps (s\<lparr>isVisited := v, perimeterEdges := []\<rparr>) s'" using r by (rule dfs_keeps(1))
  then have "H s' = H s" "W s' = W s" by (simp_all add: keeps_def)
  moreover have "s'\<lparr>isVisited := v, perimeterEdges := []\<rparr> = s\<lparr>isVisited := v, perimeterEdges := []\<rparr>"
    using keeps_frame[OF k] by (cases s, cases s') simp
  ultimately show ?thesis using v r by (simp add: computePerimeter_def)
qed

lemma reach_in_bounds:
  assumes "wf_grid s" "reach s y x"
  shows "in_bounds s y x \<and> \<not> filled s y x"
  using assms(2) assms(1)
  by (induction rule: reach.induct) (auto simp: wf_grid_def in_bounds_def nbr_eq_Some)

lemma not_marked_fresh: "isVisited t = replicate n (replicate m False) \<Longrightarrow> \<not> marked t y x"
  by (auto simp: marked_def at2_def)

lemma filled_in_bounds: "wf_grid s \<Longrightarrow> filled s y x \<Longrightarrow> in_bounds s y x"
  by (auto simp: wf_grid_def filled_def at2_def in_bounds_def list_all_length split: if_splits)

lemma lit_iff_eset:
  assumes wf: "wf_grid s"
  shows "(\<Union>p \<in> {(y, x). reach s y x}. eset s p) = lit s"
proof (intro set_eqI iffI)
  fix e assume "e \<in> (\<Union>p \<in> {(y, x). reach s y x}. eset s p)"
  then obtain y x where r: "reach s y x" and e: "e \<in> set (cell_edges s y x 0)"
    by (auto simp: eset_def)
  from reach_in_bounds[OF wf r] have ib: "in_bounds s y x" by simp
  from edge_owner[OF e ib] e r show "e \<in> lit s"
    by (auto simp: lit_def in_cell_edges in_probe)
next
  fix e assume "e \<in> lit s"
  then obtain y x where f: "filled s (ey e) (ex e)" and k: "dir e < 6"
    and n: "nbr s (ey e) (ex e) (dir e) = Some (y, x)" and r: "reach s y x"
    by (auto simp: lit_def)
  from filled_in_bounds[OF wf f] have "in_bounds s (ey e) (ex e)" .
  from nbr_back[OF this k n] have "nbr s y x ((dir e + 3) mod 6) = Some (ey e, ex e)" .
  with f k have "e \<in> set (probe s y x ((dir e + 3) mod 6))"
    by (simp add: in_probe back_back)
  then have "\<exists>d. 0 \<le> d \<and> d < 6 \<and> e \<in> set (probe s y x d)"
    by (intro exI[of _ "(dir e + 3) mod 6"]) simp
  then have "e \<in> eset s (y, x)" by (simp add: eset_def in_cell_edges)
  with r show "e \<in> (\<Union>p \<in> {(y, x). reach s y x}. eset s p)" by blast
qed

lemma computePerimeter_trace:
  assumes wf: "wf_grid s"
  shows "\<exists>n s'. computePerimeter s = Inr (n, s') \<and> n = length (perimeterEdges s') \<and>
           distinct (perimeterEdges s') \<and> set (perimeterEdges s') = lit s \<and>
           (\<forall>y x. marked s' y x = reach s y x)"
proof -
  define v where "v = replicate (nat (H s + 2)) (replicate (nat (W s + 2)) False)"
  define s0 where "s0 = s\<lparr>isVisited := v, perimeterEdges := []\<rparr>"
  have nm: "new_matrix (H s + 2) (W s + 2) False = Inr v"
    using wf by (simp add: new_matrix_def wf_grid_def v_def)
  have g: "same_geo s s0" by (simp add: same_geo_def s0_def)
  have wf0: "wf_grid s0" using wf by (simp add: geo_wf_grid[OF g])
  have wv0: "wf_visited s0" by (simp add: wf_visited_def s0_def v_def list_all_length)
  have ib0: "in_bounds s0 0 0" using wf by (simp add: in_bounds_def wf_grid_def s0_def)
  have st: "\<not> filled s0 0 0 \<longrightarrow> reach s0 0 0" by (simp add: reach.start)
  from dfs_grows(1)[OF wf0 wv0 ib0 st, of 0]
  obtain s' c' where run: "dfs 0 0 s0 0 = Inr (s', c')" and gr: "grows s0 0 [] s' c'"
    and m0: "\<not> filled s0 0 0 \<longrightarrow> marked s' 0 0" by blast
  have "isVisited s0 = replicate (nat (H s + 2)) (replicate (nat (W s + 2)) False)"
    by (simp add: s0_def v_def)
  then have "\<not> marked s0 y x" for y x by (rule not_marked_fresh)
  then have fr: "fresh s0 s' = {(y, x). marked s' y x}"
    by (simp add: fresh_def)
  from gr obtain new where new: "perimeterEdges s' = new" "c' = length new" "distinct new"
    "set new = (\<Union>p \<in> fresh s0 s'. eset s0 p)"
    by (auto simp: grows_def s0_def)
  have P: "\<forall>p \<in> fresh s0 s'. reach s (fst p) (snd p) \<and> closed_at s s' (fst p) (snd p)"
    using gr by (simp add: grows_def geo_reach[OF g] geo_closed_at[OF g])
  have sound: "reach s y x" if "marked s' y x" for y x
    using P that by (auto simp: fr)
  have complete: "marked s' y x" if "reach s y x" for y x
    using that
  proof induction
    case start
    then show ?case using m0 by (simp add: geo_filled[OF g])
  next
    case (step y x d y' x')
    then have "closed_at s s' y x" using P by (auto simp: fr)
    with step show ?case by (auto simp: closed_at_def)
  qed
  have eq: "fresh s0 s' = {(y, x). reach s y x}"
    using sound complete by (auto simp: fr)
  have "set (perimeterEdges s') = lit s"
    using new(1,4) by (simp add: eq geo_eset[OF g] lit_iff_eset[OF wf])
  moreover have "computePerimeter s = Inr (c', s')"
    using nm run by (simp add: computePerimeter_def s0_def)
  ultimately show ?thesis using new sound complete by auto
qed

lemma wf_single_cell: "wf_grid single_cell"
  by (simp add: wf_grid_def single_cell_def max_array_length_def)

lemma wf_full_block: "wf_grid full_block"
  by (simp add: wf_grid_def full_block_def max_array_length_def)

lemma wf_corner_filled: "wf_grid corner_filled"
  by (simp add: wf_grid_def corner_filled_def max_array_length_def)

lemma all_dirs: "(\<forall>d<6. P d) \<longleftrightarrow> P 0 \<and> P 1 \<and> P 2 \<and> P 3 \<and> P 4 \<and> P (5::nat)"
proof -
  have "d < 6 \<longleftrightarrow> d = 0 \<or> d = 1 \<or> d = 2 \<or> d = 3 \<or> d = 4 \<or> d = 5" for d :: nat by arith
  then show ?thesis by auto
qed

lemma no_reach_from_filled_corner:
  assumes "filled s 0 0"
  shows "\<not> reach s y x"
proof
  assume "reach s y x"
  then show False using assms by induction simp_all
qed

lemma lit_sound:
  assumes "wf_grid s" "e \<in> lit s"
  shows "filled s (ey e) (ex e) \<and> dir e < 6 \<and>
         (\<exists>y x. nbr s (ey e) (ex e) (dir e) = Some (y, x) \<and> reach s y x \<and> \<not> filled s y x)"
  using assms reach_in_bounds[OF assms(1)] by (auto simp: lit_def)

lemma same_geo_computePerimeter:
  fixes s t :: hexgrid
  assumes "same_geo s t"
  shows "computePerimeter t = computePerimeter s"
proof -
  have "t\<lparr>isVisited := v, perimeterEdges := []\<rparr> = s\<lparr>isVisited := v, perimeterEdges := []\<rparr>" for v
    using assms by (cases s, cases t) (simp add: same_geo_def)
  moreover have "H t = H s" "W t = W s" using assms by (simp_all add: same_geo_def)
  ultimately show ?thesis by (simp add: computePerimeter_def split: sum.splits)
qed

lemma in_border_cells:
  "(y, x) \<in> set (border_cells s) \<longleftrightarrow>
     in_bounds s y x \<and> (y = 0 \<or> int y = H s + 1 \<or> x = 0 \<or> int x = W s + 1)"
  by (auto simp: border_cells_def in_bounds_def)

lemma border_empty_code [code]:
  "border_empty s \<longleftrightarrow> list_all (\<lambda>(y, x). \<not> filled s y x) (border_cells s)"
  unfolding border_empty_def list_all_iff by (auto simp: in_border_cells)

lemma nb_inj:
  assumes "d < 6" "d' < 6" "nb y x d = nb y x d'"
  shows "d = d'"
proof -
  have c: "d = 0 \<or> d = Suc 0 \<or> d = 2 \<or> d = 3 \<or> d = 4 \<or> d = 5" using assms(1) by arith
  have c': "d' = 0 \<or> d' = Suc 0 \<or> d' = 2 \<or> d' = 3 \<or> d' = 4 \<or> d' = 5" using assms(2) by arith
  show ?thesis
  proof (cases "even y")
    case True
    from c c' assms(3) show ?thesis
      by (elim disjE) (simp_all add: nb_even[OF True])
  next
    case False
    from c c' assms(3) show ?thesis
      by (elim disjE) (simp_all add: nb_odd[OF False])
  qed
qed

lemma nbr_inj:
  assumes "d < 6" "d' < 6" "nbr s y x d = Some p" "nbr s y x d' = Some p"
  shows "d = d'"
  using assms nb_inj[of d d' y x] by (cases p) (simp add: nbr_eq_Some)

lemma count_list_distinct: "distinct xs \<Longrightarrow> x \<in> set xs \<Longrightarrow> count_list xs x = 1"
  by (induction xs) auto

lemma edge_eqI: "ex e = ex e' \<Longrightarrow> ey e = ey e' \<Longrightarrow> dir e = dir e' \<Longrightarrow> e = (e' :: edge)"
  by (cases e, cases e') simp

lemma owner_pair_image:
  assumes wf: "wf_grid s"
  shows "owner_pair s ` lit s = exposed_pairs s"
proof (intro set_eqI iffI)
  fix pq assume "pq \<in> owner_pair s ` lit s"
  then obtain e where e: "e \<in> lit s" and pq: "pq = owner_pair s e" by blast
  from e obtain y x where f: "filled s (ey e) (ex e)" and k: "dir e < 6"
    and n: "nbr s (ey e) (ex e) (dir e) = Some (y, x)" and r: "reach s y x"
    by (auto simp: lit_def)
  from nbr_back[OF filled_in_bounds[OF wf f] k n]
  have "nbr s y x ((dir e + 3) mod 6) = Some (ey e, ex e)" .
  moreover have "(dir e + 3) mod 6 < 6" by simp
  ultimately have "\<exists>d<6. nbr s y x d = Some (ey e, ex e)" by blast
  with f r n show "pq \<in> exposed_pairs s" by (simp add: pq owner_pair_def exposed_pairs_def)
next
  fix pq assume "pq \<in> exposed_pairs s"
  then obtain y x y' x' d where pq: "pq = ((y, x), (y', x'))" and r: "reach s y x"
    and f: "filled s y' x'" and d: "d < 6" and n: "nbr s y x d = Some (y', x')"
    by (auto simp: exposed_pairs_def)
  define e where "e = \<lparr>ex = x', ey = y', dir = (d + 3) mod 6\<rparr>"
  from reach_in_bounds[OF wf r] have "in_bounds s y x" by simp
  from nbr_back[OF this d n] have b: "nbr s y' x' ((d + 3) mod 6) = Some (y, x)" .
  with f r have "e \<in> lit s" by (simp add: lit_def e_def)
  moreover have "owner_pair s e = pq" using b by (simp add: owner_pair_def e_def pq)
  ultimately show "pq \<in> owner_pair s ` lit s" by blast
qed

lemma owner_pair_inj: "inj_on (owner_pair s) (lit s)"
proof (rule inj_onI)
  fix e e' assume e: "e \<in> lit s" and e': "e' \<in> lit s" and eq: "owner_pair s e = owner_pair s e'"
  from e obtain p where n: "nbr s (ey e) (ex e) (dir e) = Some p" and k: "dir e < 6"
    by (auto simp: lit_def)
  from e' obtain p' where n': "nbr s (ey e') (ex e') (dir e') = Some p'" and k': "dir e' < 6"
    by (auto simp: lit_def)
  from eq n n' have c: "ey e = ey e'" "ex e = ex e'" "p = p'" by (simp_all add: owner_pair_def)
  with n n' have "dir e = dir e'" using nbr_inj[OF k k'] by simp
  with c show "e = e'" by (simp add: edge_eqI)
qed

lemma card_exposed_pairs: "wf_grid s \<Longrightarrow> card (exposed_pairs s) = card (lit s)"
  using card_image[OF owner_pair_inj, of s] by (simp add: owner_pair_image)

lemma computePerimeter_geo:
  assumes "computePerimeter s = Inr (n, s')"
  shows "same_geo s s'"
proof -
  from assms obtain v where r: "dfs 0 0 (s\<lparr>isVisited := v, perimeterEdges := []\<rparr>) 0 = Inr (s', n)"
    by (auto simp: computePerimeter_def split: sum.splits)
  from keeps_geo[OF dfs_keeps(1)[OF r]] show ?thesis by (simp add: same_geo_def)
qed

lemma draw_geo: "draw s = Inr s' \<Longrightarrow> same_geo s s'"
  by (auto simp: draw_def split: sum.splits if_splits dest: computePerimeter_geo)

lemma draw_total:
  assumes "wf_grid s"
  shows "\<exists>s'. draw s = Inr s'"
proof -
  from computePerimeter_trace[OF assms] obtain n s' where r: "computePerimeter s = Inr (n, s')"
    by blast
  from computePerimeter_geo[OF r] have g: "same_geo s s'" .
  then have "wf_grid s'" using assms by (simp add: geo_wf_grid)
  then have "\<not> (\<exists>y \<in> set [1..H s']. \<not> has_row (grid s') (nat y))"
    by (auto simp: wf_grid_def has_row_def)
  with r show ?thesis by (simp add: draw_def)
qed

lemma geo_border_empty: "same_geo s s' \<Longrightarrow> border_empty s' = border_empty s"
  by (simp add: border_empty_def geo_in_bounds geo_filled) (simp add: same_geo_def)

text \<open>The allocation.\<close>

lemma not_filled_zeros:
  "grid s = replicate n (replicate m 0) \<Longrightarrow> \<not> filled s y x"
  by (auto simp: filled_def at2_def)

lemma initEmptyGrid_result:
  assumes "initEmptyGrid w h s = Inr s'"
  shows "W s' = w \<and> H s' = h \<and> grid s' = replicate (nat (h + 2)) (replicate (nat (w + 2)) 0)"
proof -
  from assms have "draw (s\<lparr>W := w, H := h,
      grid := replicate (nat (h + 2)) (replicate (nat (w + 2)) 0)\<rparr>) = Inr s'"
    by (auto simp: initEmptyGrid_def new_matrix_def resizeCanvas_def split: if_splits)
  from draw_geo[OF this] show ?thesis by (simp add: same_geo_def)
qed

lemma initEmptyGrid_total:
  assumes "- 1 \<le> w" "- 1 \<le> h" "w + 2 \<le> max_array_length" "h + 2 \<le> max_array_length"
  shows "\<exists>s'. initEmptyGrid w h s = Inr s'"
proof -
  let ?s = "s\<lparr>W := w, H := h, grid := replicate (nat (h + 2)) (replicate (nat (w + 2)) 0)\<rparr>"
  have "wf_grid ?s" using assms by (simp add: wf_grid_def list_all_length)
  from draw_total[OF this] assms show ?thesis
    by (simp add: initEmptyGrid_def new_matrix_def resizeCanvas_def)
qed

text \<open>Loading the data lines.\<close>

lemma fold_update_length:
  "length (fold (\<lambda>j r. r[nat j := f j]) js r) = length r"
  by (induction js arbitrary: r) simp_all

lemma fold_update_keep:
  "\<forall>j \<in> set js. nat j \<noteq> k \<Longrightarrow> fold (\<lambda>j r. r[nat j := f j]) js r ! k = r ! k"
  by (induction js arbitrary: r) simp_all

lemma fill_row_length: "length (fill_row rowData w r) = length r"
  by (simp add: fill_row_def fold_update_length)

lemma fill_row_keep: "k = 0 \<or> w < int k \<Longrightarrow> fill_row rowData w r ! k = r ! k"
  unfolding fill_row_def by (rule fold_update_keep) auto

lemma fill_rows_shape:
  assumes "fill_rows rows w is g = Inr g'"
  shows "length g' = length g \<and> (\<forall>k. length (g' ! k) = length (g ! k)) \<and>
         (\<forall>k. (\<forall>i \<in> set is. nat i \<noteq> k) \<longrightarrow> g' ! k = g ! k) \<and>
         (\<forall>k c. c = 0 \<or> w < int c \<longrightarrow> g' ! k ! c = g ! k ! c)"
  using assms
proof (induction "is" arbitrary: g)
  case Nil
  then show ?case by simp
next
  case (Cons i "is")
  let ?g1 = "g[nat i := fill_row (rows ! nat (i - 1)) w (g ! nat i)]"
  from Cons.prems have r: "fill_rows rows w is ?g1 = Inr g'" by (simp split: if_splits)
  note ih = Cons.IH[OF r]
  have l1: "length (?g1 ! k) = length (g ! k)" for k
    by (cases "nat i < length g"; cases "k = nat i")
       (simp_all add: fill_row_length list_update_beyond)
  have k1: "?g1 ! k ! c = g ! k ! c" if "c = 0 \<or> w < int c" for k c
    using that by (cases "nat i < length g"; cases "k = nat i")
       (simp_all add: fill_row_keep list_update_beyond)
  have o1: "?g1 ! k = g ! k" if "nat i \<noteq> k" for k
    using that by simp
  from ih l1 k1 o1 show ?case by simp
qed

lemma fill_rows_total:
  "\<forall>i \<in> set is. nat (i - 1) < length rows \<Longrightarrow> \<exists>g'. fill_rows rows w is g = Inr g'"
  by (induction "is" arbitrary: g) simp_all

lemma loadFromInput_result:
  assumes "loadFromInput (w, h) rows s = Inr s'" "rows \<noteq> []"
  shows "W s' = w \<and> H s' = h \<and> (- 1 \<le> w \<longrightarrow> - 1 \<le> h \<longrightarrow> wf_grid s') \<and> border_empty s'"
proof -
  define g where "g = replicate (nat (h + 2)) (replicate (nat (w + 2)) (0::jsnum))"
  from assms obtain g' where f: "fill_rows rows w [1..h] g = Inr g'"
    and d: "draw (s\<lparr>W := w, H := h, grid := g'\<rparr>) = Inr s'"
    and lim: "h + 2 \<le> max_array_length" "0 < h + 2 \<longrightarrow> w + 2 \<le> max_array_length"
    by (auto simp: loadFromInput_def new_matrix_def resizeCanvas_def g_def
             split: if_splits sum.splits)
  note sh = fill_rows_shape[OF f]
  let ?t = "s\<lparr>W := w, H := h, grid := g'\<rparr>"
  from draw_geo[OF d] have geo: "same_geo ?t s'" .
  have wf: "wf_grid ?t" if "- 1 \<le> w" "- 1 \<le> h"
    using that sh lim by (simp add: wf_grid_def list_all_length g_def)
  have "\<not> filled ?t y x"
    if ib: "in_bounds ?t y x" and b: "y = 0 \<or> int y = h + 1 \<or> x = 0 \<or> int x = w + 1" for y x
  proof -
    from ib have r: "y < nat (h + 2)" "x < nat (w + 2)" by (auto simp: in_bounds_def)
    have *: "g ! y ! x = 0" using r by (simp add: g_def)
    have "g' ! y ! x = 0"
    proof (cases "y = 0 \<or> int y = h + 1")
      case True
      then have "\<forall>i \<in> set [1..h]. nat i \<noteq> y" by auto
      with sh have "g' ! y = g ! y" by blast
      with * show ?thesis by simp
    next
      case False
      with b have "x = 0 \<or> w < int x" by auto
      with sh have "g' ! y ! x = g ! y ! x" by blast
      with * show ?thesis by simp
    qed
    then show ?thesis by (simp add: filled_def at2_def)
  qed
  then have "border_empty ?t" by (simp add: border_empty_def)
  with geo wf geo_border_empty[OF geo] geo_wf_grid[OF geo] show ?thesis
    by (simp add: same_geo_def)
qed

lemma loadFromInput_total:
  assumes "- 1 \<le> w" "- 1 \<le> h" "h \<le> int (length rows)"
    "w + 2 \<le> max_array_length" "h + 2 \<le> max_array_length"
  shows "\<exists>s'. loadFromInput (w, h) rows s = Inr s'"
proof (cases "rows = []")
  case True
  then show ?thesis by (simp add: loadFromInput_def)
next
  case False
  define g where "g = replicate (nat (h + 2)) (replicate (nat (w + 2)) (0::jsnum))"
  have "\<forall>i \<in> set [1..h]. nat (i - 1) < length rows" using assms(3) by auto
  from fill_rows_total[OF this] obtain g' where f: "fill_rows rows w [1..h] g = Inr g'" by blast
  note sh = fill_rows_shape[OF f]
  have "wf_grid (s\<lparr>W := w, H := h, grid := g'\<rparr>)"
    using assms sh by (simp add: wf_grid_def list_all_length g_def)
  from draw_total[OF this] f False assms show ?thesis
    by (auto simp: loadFromInput_def new_matrix_def resizeCanvas_def g_def)
qed

text \<open>The click.\<close>

lemma pick_inner:
  "snd (fold (\<lambda>x (bestDist, bestPos). if C x bestDist then (Some (D x), Some (x, y))
                 else (bestDist, bestPos)) xs acc) = Some (a, b)
   \<Longrightarrow> snd acc = Some (a, b) \<or> (a \<in> set xs \<and> b = y)"
proof (induction xs arbitrary: acc)
  case Nil
  then show ?case by simp
next
  case (Cons x xs)
  obtain bd bp where acc: "acc = (bd, bp)" by (cases acc)
  let ?acc' = "if C x bd then (Some (D x), Some (x, y)) else (bd, bp)"
  from Cons.prems have "snd (fold (\<lambda>x (bestDist, bestPos). if C x bestDist
      then (Some (D x), Some (x, y)) else (bestDist, bestPos)) xs ?acc') = Some (a, b)"
    by (simp add: acc)
  from Cons.IH[OF this] show ?case by (auto simp: acc split: if_splits)
qed

lemma pick_outer:
  "snd (fold (\<lambda>y. fold (\<lambda>x (bestDist, bestPos). if C x y bestDist then (Some (D x y), Some (x, y))
                 else (bestDist, bestPos)) xs) ys acc) = Some (a, b)
   \<Longrightarrow> snd acc = Some (a, b) \<or> (a \<in> set xs \<and> b \<in> set ys)"
proof (induction ys arbitrary: acc)
  case Nil
  then show ?case by simp
next
  case (Cons y ys)
  from Cons.IH[of "fold (\<lambda>x (bestDist, bestPos). if C x y bestDist then (Some (D x y), Some (x, y))
                 else (bestDist, bestPos)) xs acc"] Cons.prems
  show ?case using pick_inner[of "\<lambda>x. C x y" "\<lambda>x. D x y" y xs acc a b] by auto
qed

lemma pick_range:
  assumes "pick mouse_dist s = Some (x, y)"
  shows "1 \<le> x \<and> x \<le> W s \<and> 1 \<le> y \<and> y \<le> H s"
  using pick_outer[of "\<lambda>x y bestDist. mouse_dist x y < hexSize \<and>
          (case bestDist of None \<Rightarrow> True | Some b \<Rightarrow> mouse_dist x y < b)"
        mouse_dist "[1..W s]" "[1..H s]" "(None, None)" x y] assms
  by (simp add: pick_def)

lemma toggle_other:
  assumes "toggle g y x = Inr g'" "(a, b) \<noteq> (y, x)"
  shows "(at2 g' a b = Some 1) = (at2 g a b = Some 1)"
proof (cases "a = y")
  case False
  with assms(1) show ?thesis
    by (auto simp: toggle_def at2_def has_row_def split: if_splits)
next
  case True
  with assms(2) have b: "b \<noteq> x" by simp
  from assms(1) have y: "y < length g" and
    g': "g' = g[y := (if x < length (g ! y) then (g ! y)[x := one_minus (g ! y ! x)]
                     else g ! y @ replicate (x - length (g ! y)) NaN @ [NaN])]"
    by (auto simp: toggle_def has_row_def Let_def split: if_splits)
  show ?thesis
  proof (cases "x < length (g ! y)")
    case True
    with y b \<open>a = y\<close> show ?thesis by (simp add: g' at2_def)
  next
    case False
    show ?thesis
    proof (cases "b < length (g ! y)")
      case True
      with False y \<open>a = y\<close> show ?thesis by (simp add: g' at2_def nth_append)
    next
      case False
      with \<open>\<not> x < length (g ! y)\<close> y b \<open>a = y\<close> show ?thesis
        by (auto simp: g' at2_def nth_append)
    qed
  qed
qed

lemma toggle_shape:
  "toggle g y x = Inr g' \<Longrightarrow> x < length (g ! y)
   \<Longrightarrow> length g' = length g \<and> (\<forall>k. length (g' ! k) = length (g ! k))"
  by (auto simp: toggle_def has_row_def nth_list_update Let_def split: if_splits)

lemma handleClick_border:
  assumes "handleClick mouse_dist s = Inr s'" "border_empty s"
  shows "border_empty s'"
proof (cases "pick mouse_dist s")
  case None
  with assms show ?thesis by (simp add: handleClick_def)
next
  case (Some p)
  obtain x y where p: "p = (x, y)" by (cases p)
  from pick_range[of mouse_dist s x y] Some p
  have rg: "1 \<le> x" "x \<le> W s" "1 \<le> y" "y \<le> H s" by simp_all
  from assms(1) Some p obtain g where t: "toggle (grid s) (nat y) (nat x) = Inr g"
    and d: "draw (s\<lparr>grid := g\<rparr>) = Inr s'"
    by (auto simp: handleClick_def split: sum.splits)
  have "\<not> filled (s\<lparr>grid := g\<rparr>) a b"
    if ib: "in_bounds s a b" and b: "a = 0 \<or> int a = H s + 1 \<or> b = 0 \<or> int b = W s + 1" for a b
  proof -
    from b rg have "(a, b) \<noteq> (nat y, nat x)" by auto
    from toggle_other[OF t this] have "filled (s\<lparr>grid := g\<rparr>) a b = filled s a b"
      by (simp add: filled_def)
    moreover have "\<not> filled s a b" using assms(2) ib b unfolding border_empty_def by blast
    ultimately show ?thesis by simp
  qed
  then have "border_empty (s\<lparr>grid := g\<rparr>)" by (simp add: border_empty_def in_bounds_def)
  with geo_border_empty[OF draw_geo[OF d]] show ?thesis by simp
qed

lemma handleClick_total:
  assumes "wf_grid s"
  shows "\<exists>s'. handleClick mouse_dist s = Inr s'"
proof (cases "pick mouse_dist s")
  case None
  then show ?thesis by (simp add: handleClick_def)
next
  case (Some p)
  obtain x y where p: "p = (x, y)" by (cases p)
  from pick_range[of mouse_dist s x y] Some p
  have rg: "1 \<le> x" "x \<le> W s" "1 \<le> y" "y \<le> H s" by simp_all
  with assms have row: "has_row (grid s) (nat y)" by (auto simp: wf_grid_def has_row_def)
  then have "\<exists>g. toggle (grid s) (nat y) (nat x) = Inr g"
    by (simp add: toggle_def)
  then obtain g where t: "toggle (grid s) (nat y) (nat x) = Inr g" by blast
  from row rg assms have "nat x < length (grid s ! nat y)"
    by (auto simp: wf_grid_def has_row_def list_all_length)
  from toggle_shape[OF t this] assms have "wf_grid (s\<lparr>grid := g\<rparr>)"
    by (simp add: wf_grid_def list_all_length)
  from draw_total[OF this] t Some p show ?thesis by (auto simp: handleClick_def)
qed

text \<open>Moves along a row and along a column are moves of the hexagonal grid.\<close>

lemma nbr_right: "in_bounds s y (Suc x) \<Longrightarrow> nbr s y x 0 = Some (y, Suc x)"
  by (cases "even y") (simp_all add: nbr_eq_Some nb_even nb_odd)

lemma nbr_left: "in_bounds s y x \<Longrightarrow> nbr s y (Suc x) 3 = Some (y, x)"
  by (cases "even y") (simp_all add: nbr_eq_Some nb_even nb_odd)

lemma nbr_down: "in_bounds s (Suc y) x \<Longrightarrow> nbr s y x (if even y then 1 else 2) = Some (Suc y, x)"
  by (cases "even y") (simp_all add: nbr_eq_Some nb_even nb_odd)

lemma nbr_up: "in_bounds s y x \<Longrightarrow> nbr s (Suc y) x (if even y then 4 else 5) = Some (y, x)"
  by (cases "even y") (simp_all add: nbr_eq_Some nb_even nb_odd)

lemma move_right: "reach s y x \<Longrightarrow> in_bounds s y (Suc x) \<Longrightarrow> \<not> filled s y (Suc x) \<Longrightarrow> reach s y (Suc x)"
  using reach.step[of s y x 0 y "Suc x"] nbr_right by simp

lemma move_left: "reach s y (Suc x) \<Longrightarrow> in_bounds s y x \<Longrightarrow> \<not> filled s y x \<Longrightarrow> reach s y x"
  using reach.step[of s y "Suc x" 3 y x] nbr_left by simp

lemma move_down: "reach s y x \<Longrightarrow> in_bounds s (Suc y) x \<Longrightarrow> \<not> filled s (Suc y) x \<Longrightarrow> reach s (Suc y) x"
  using reach.step[of s y x "if even y then 1 else 2" "Suc y" x] nbr_down by simp

lemma move_up: "reach s (Suc y) x \<Longrightarrow> in_bounds s y x \<Longrightarrow> \<not> filled s y x \<Longrightarrow> reach s y x"
  using reach.step[of s "Suc y" x "if even y then 4 else 5" y x] nbr_up by simp

lemma run_right:
  "reach s y x0 \<Longrightarrow> in_bounds s y (x0 + k) \<Longrightarrow> (\<forall>j. x0 < j \<and> j \<le> x0 + k \<longrightarrow> \<not> filled s y j)
     \<Longrightarrow> reach s y (x0 + k)"
proof (induction k)
  case 0
  then show ?case by simp
next
  case (Suc k)
  then have "reach s y (x0 + k)" by (simp add: in_bounds_def)
  with Suc.prems show ?case using move_right[of s y "x0 + k"] by simp
qed

lemma run_down:
  "reach s y0 x \<Longrightarrow> in_bounds s (y0 + k) x \<Longrightarrow> (\<forall>j. y0 < j \<and> j \<le> y0 + k \<longrightarrow> \<not> filled s j x)
     \<Longrightarrow> reach s (y0 + k) x"
proof (induction k)
  case 0
  then show ?case by simp
next
  case (Suc k)
  then have "reach s (y0 + k) x" by (simp add: in_bounds_def)
  with Suc.prems show ?case using move_down[of s "y0 + k" x] by simp
qed

lemma run_left:
  "reach s y (x0 + k) \<Longrightarrow> in_bounds s y (x0 + k) \<Longrightarrow> (\<forall>j. x0 \<le> j \<and> j < x0 + k \<longrightarrow> \<not> filled s y j)
     \<Longrightarrow> reach s y x0"
proof (induction k)
  case 0
  then show ?case by simp
next
  case (Suc k)
  then have "reach s y (x0 + k)" using move_left[of s y "x0 + k"] by (simp add: in_bounds_def)
  with Suc show ?case by (simp add: in_bounds_def)
qed

lemma run_up:
  "reach s (y0 + k) x \<Longrightarrow> in_bounds s (y0 + k) x \<Longrightarrow> (\<forall>j. y0 \<le> j \<and> j < y0 + k \<longrightarrow> \<not> filled s j x)
     \<Longrightarrow> reach s y0 x"
proof (induction k)
  case 0
  then show ?case by simp
next
  case (Suc k)
  then have "reach s (y0 + k) x" using move_up[of s "y0 + k" x] by (simp add: in_bounds_def)
  with Suc show ?case by (simp add: in_bounds_def)
qed

text \<open>With an empty border ring the whole ring is reachable from the corner.\<close>

lemma border_not_filled:
  "border_empty s \<Longrightarrow> in_bounds s y x \<Longrightarrow> y = 0 \<or> int y = H s + 1 \<or> x = 0 \<or> int x = W s + 1
     \<Longrightarrow> \<not> filled s y x"
  unfolding border_empty_def by blast

lemma reach_corner:
  assumes "wf_grid s" "border_empty s"
  shows "reach s 0 0"
proof -
  have "in_bounds s 0 0" using assms(1) by (simp add: in_bounds_def wf_grid_def)
  with assms(2) have "\<not> filled s 0 0" by (simp add: border_not_filled)
  then show ?thesis by (rule reach.start)
qed

lemma reach_top:
  assumes "wf_grid s" "border_empty s" "in_bounds s 0 x"
  shows "reach s 0 x"
proof -
  have "\<not> filled s 0 j" if "j \<le> x" for j
    using border_not_filled[OF assms(2), of 0 j] that assms(3) by (simp add: in_bounds_def)
  then have "\<forall>j. 0 < j \<and> j \<le> 0 + x \<longrightarrow> \<not> filled s 0 j" by simp
  from run_right[OF reach_corner[OF assms(1,2)], of x] this assms(3) show ?thesis by simp
qed

lemma reach_left:
  assumes "wf_grid s" "border_empty s" "in_bounds s y 0"
  shows "reach s y 0"
proof -
  have "\<not> filled s j 0" if "j \<le> y" for j
    using border_not_filled[OF assms(2), of j 0] that assms(3) by (simp add: in_bounds_def)
  then have "\<forall>j. 0 < j \<and> j \<le> 0 + y \<longrightarrow> \<not> filled s j 0" by simp
  from run_down[OF reach_corner[OF assms(1,2)], of y] this assms(3) show ?thesis by simp
qed

lemma reach_bottom:
  assumes "wf_grid s" "border_empty s" "in_bounds s y x" "int y = H s + 1"
  shows "reach s y x"
proof -
  have "in_bounds s y 0" using assms(1,3) by (simp add: in_bounds_def wf_grid_def)
  from reach_left[OF assms(1,2) this] have "reach s y 0" .
  moreover have "\<not> filled s y j" if "j \<le> x" for j
    using border_not_filled[OF assms(2), of y j] that assms(3,4) by (simp add: in_bounds_def)
  then have "\<forall>j. 0 < j \<and> j \<le> 0 + x \<longrightarrow> \<not> filled s y j" by simp
  ultimately show ?thesis using run_right[of s y 0 x] assms(3) by simp
qed

lemma reach_right:
  assumes "wf_grid s" "border_empty s" "in_bounds s y x" "int x = W s + 1"
  shows "reach s y x"
proof -
  have "in_bounds s 0 x" using assms(1,3) by (simp add: in_bounds_def wf_grid_def)
  from reach_top[OF assms(1,2) this] have "reach s 0 x" .
  moreover have "\<not> filled s j x" if "j \<le> y" for j
    using border_not_filled[OF assms(2), of j x] that assms(3,4) by (simp add: in_bounds_def)
  then have "\<forall>j. 0 < j \<and> j \<le> 0 + y \<longrightarrow> \<not> filled s j x" by simp
  ultimately show ?thesis using run_down[of s 0 x y] assms(3) by simp
qed

text \<open>
  An empty cell is reachable as soon as one of its four arms, the cells of its column
  above or below it or of its row left or right of it, holds no filled cell.
\<close>

lemma arm_up:
  assumes "wf_grid s" "border_empty s" "in_bounds s y x" "\<not> filled s y x"
    "\<forall>j<y. \<not> filled s j x"
  shows "reach s y x"
proof -
  have "in_bounds s 0 x" using assms(1,3) by (simp add: in_bounds_def wf_grid_def)
  from reach_top[OF assms(1,2) this] have "reach s 0 x" .
  moreover have "\<forall>j. 0 < j \<and> j \<le> 0 + y \<longrightarrow> \<not> filled s j x"
    using assms(4,5) by (auto simp: le_less)
  ultimately show ?thesis using run_down[of s 0 x y] assms(3) by simp
qed

lemma arm_left:
  assumes "wf_grid s" "border_empty s" "in_bounds s y x" "\<not> filled s y x"
    "\<forall>j<x. \<not> filled s y j"
  shows "reach s y x"
proof -
  have "in_bounds s y 0" using assms(1,3) by (simp add: in_bounds_def wf_grid_def)
  from reach_left[OF assms(1,2) this] have "reach s y 0" .
  moreover have "\<forall>j. 0 < j \<and> j \<le> 0 + x \<longrightarrow> \<not> filled s y j"
    using assms(4,5) by (auto simp: le_less)
  ultimately show ?thesis using run_right[of s y 0 x] assms(3) by simp
qed

lemma arm_down:
  assumes "wf_grid s" "border_empty s" "in_bounds s y x" "\<not> filled s y x"
    "\<forall>j>y. \<not> filled s j x"
  shows "reach s y x"
proof -
  define k where "k = nat (H s + 1) - y"
  have yk: "int (y + k) = H s + 1" using assms(3) unfolding k_def in_bounds_def by linarith
  then have ib: "in_bounds s (y + k) x" using assms(3) by (simp add: in_bounds_def)
  from reach_bottom[OF assms(1,2) ib yk] have "reach s (y + k) x" .
  moreover have "\<forall>j. y \<le> j \<and> j < y + k \<longrightarrow> \<not> filled s j x"
    using assms(4,5) by (auto simp: le_less)
  ultimately show ?thesis using run_up[of s y k x] ib by simp
qed

lemma arm_right:
  assumes "wf_grid s" "border_empty s" "in_bounds s y x" "\<not> filled s y x"
    "\<forall>j>x. \<not> filled s y j"
  shows "reach s y x"
proof -
  define k where "k = nat (W s + 1) - x"
  have xk: "int (x + k) = W s + 1" using assms(3) unfolding k_def in_bounds_def by linarith
  then have ib: "in_bounds s y (x + k)" using assms(3) by (simp add: in_bounds_def)
  from reach_right[OF assms(1,2) ib xk] have "reach s y (x + k)" .
  moreover have "\<forall>j. x \<le> j \<and> j < x + k \<longrightarrow> \<not> filled s y j"
    using assms(4,5) by (auto simp: le_less)
  ultimately show ?thesis using run_left[of s y x k] ib by simp
qed

lemma reach_one_hole:
  assumes wf: "wf_grid s" and be: "border_empty s"
    and only: "\<forall>y x. filled s y x \<longleftrightarrow> (y = r \<and> x = q)"
    and ib: "in_bounds s y x" and ne: "\<not> filled s y x"
  shows "reach s y x"
proof (cases "x = q")
  case False
  with only have "\<forall>j<y. \<not> filled s j x" by simp
  from arm_up[OF wf be ib ne this] show ?thesis .
next
  case True
  with ne only have "y \<noteq> r" by simp
  with only have "\<forall>j<x. \<not> filled s y j" by simp
  from arm_left[OF wf be ib ne this] show ?thesis .
qed

lemma reach_two_holes:
  assumes wf: "wf_grid s" and be: "border_empty s"
    and only: "\<forall>y x. filled s y x \<longleftrightarrow> (y = r1 \<and> x = q1) \<or> (y = r2 \<and> x = q2)"
    and ib: "in_bounds s y x" and ne: "\<not> filled s y x"
  shows "reach s y x"
proof -
  have "(\<forall>j<y. \<not> filled s j x) \<or> (\<forall>j<x. \<not> filled s y j) \<or> (\<forall>j>y. \<not> filled s j x) \<or>
        (\<forall>j>x. \<not> filled s y j)"
  proof (rule ccontr)
    assume "\<not> ?thesis"
    then obtain a b c d where "a < y" "filled s a x" "b < x" "filled s y b"
      "c > y" "filled s c x" "d > x" "filled s y d" by auto
    with only show False by auto
  qed
  with arm_up[OF wf be ib ne] arm_left[OF wf be ib ne] arm_down[OF wf be ib ne]
    arm_right[OF wf be ib ne] show ?thesis by blast
qed

lemma filled_iff_cells: "filled s y x \<longleftrightarrow> (y, x) \<in> set (filled_cells s)"
  by (auto simp: filled_def at2_def filled_cells_def)

lemma nb_near:
  assumes "d < 6" "nb y x d = (a, b)"
  shows "int y - 1 \<le> a \<and> a \<le> int y + 1 \<and> int x - 1 \<le> b \<and> b \<le> int x + 1 \<and>
         (a, b) \<noteq> (int y, int x)"
proof -
  have c: "d = 0 \<or> d = Suc 0 \<or> d = 2 \<or> d = 3 \<or> d = 4 \<or> d = 5" using assms(1) by arith
  show ?thesis
  proof (cases "even y")
    case True
    from c assms(2) show ?thesis
      by (elim disjE) (auto simp: nb_even[OF True])
  next
    case False
    from c assms(2) show ?thesis
      by (elim disjE) (auto simp: nb_odd[OF False])
  qed
qed

lemma nbr_interior:
  assumes "1 \<le> y" "int y \<le> H s" "1 \<le> x" "int x \<le> W s" "d < 6"
  shows "\<exists>y' x'. nbr s y x d = Some (y', x') \<and> (y', x') \<noteq> (y, x) \<and> in_bounds s y' x'"
proof -
  obtain a b where ab: "nb y x d = (a, b)" by (cases "nb y x d")
  from nb_near[OF assms(5) ab] assms(1-4)
  have r: "0 \<le> a" "a \<le> H s + 1" "0 \<le> b" "b \<le> W s + 1" "(a, b) \<noteq> (int y, int x)"
    by auto
  then have "nb y x d = (int (nat a), int (nat b))" using ab by simp
  moreover have "in_bounds s (nat a) (nat b)" using r by (simp add: in_bounds_def)
  ultimately have "nbr s y x d = Some (nat a, nat b)" by (simp add: nbr_eq_Some)
  moreover have "(nat a, nat b) \<noteq> (y, x)" using r by auto
  moreover note \<open>in_bounds s (nat a) (nat b)\<close>
  ultimately show ?thesis by blast
qed

lemma side_inj: "inj (\<lambda>k. \<lparr>ex = q, ey = r, dir = k\<rparr>)"
  by (simp add: inj_def)

lemma card_sides: "card {\<lparr>ex = q, ey = r, dir = k\<rparr> | k. P k} = card {k. P k}"
proof -
  have "{\<lparr>ex = q, ey = r, dir = k\<rparr> | k. P k} = (\<lambda>k. \<lparr>ex = q, ey = r, dir = k\<rparr>) ` {k. P k}"
    by auto
  then show ?thesis by (simp add: card_image[OF inj_on_subset[OF side_inj]])
qed

lemma card_six: "card {k::nat. k < 6} = 6"
  by simp

lemma card_five: "d < 6 \<Longrightarrow> card {k::nat. k < 6 \<and> k \<noteq> d} = 5"
proof -
  assume d: "d < 6"
  have "{k::nat. k < 6 \<and> k \<noteq> d} = {..<6} - {d}" by auto
  then show ?thesis using d by simp
qed

lemma content_of_filled:
  assumes "wf_grid s" "border_empty s" "filled s y x"
  shows "1 \<le> y \<and> int y \<le> H s \<and> 1 \<le> x \<and> int x \<le> W s"
proof -
  from filled_in_bounds[OF assms(1,3)] have ib: "in_bounds s y x" .
  have "\<not> (y = 0 \<or> int y = H s + 1 \<or> x = 0 \<or> int x = W s + 1)"
    using border_not_filled[OF assms(2) ib] assms(3) by blast
  then have "y \<noteq> 0" "int y \<noteq> H s + 1" "x \<noteq> 0" "int x \<noteq> W s + 1" by simp_all
  with ib show ?thesis by (auto simp: in_bounds_def)
qed

lemma one_minus_twice: "one_minus (one_minus v) = v"
  by (cases v) (simp_all add: one_minus_def)

lemma toggle_twice:
  "toggle g y x = Inr g1 \<Longrightarrow> x < length (g ! y) \<Longrightarrow> toggle g1 y x = Inr g"
  by (auto simp: toggle_def has_row_def one_minus_twice Let_def split: if_splits)

lemma pick_geo: "same_geo s t \<Longrightarrow> pick mouse_dist t = pick mouse_dist s"
  by (simp add: pick_def same_geo_def)

section \<open>The search on a bounded call stack\<close>

text \<open>
  The search on a bounded stack either runs out of frames or does what the search on an
  unbounded stack does, and it does not run out of frames when it has more of them than
  the grid has cells. Along row 0 of an empty grid the calls nest once per cell.
\<close>

lemma dfs_stack_cases:
  "dfs_stack k y x s c = Inl StackOverflow \<or> dfs_stack k y x s c = dfs y x s c"
  "dfs_loop_stack k d y x s c = Inl StackOverflow \<or> dfs_loop_stack k d y x s c = dfs_loop d y x s c"
proof (induction k y x s c and k d y x s c rule: dfs_stack_dfs_loop_stack.induct)
  case (1 y x s totalCount)
  then show ?case by (simp add: dfs_stack.simps)
next
  case (2 frames y x s totalCount)
  then show ?case
    by (subst (1 2) dfs_stack.simps, subst dfs.simps) auto
next
  case (3 frames d y x s totalCount)
  show ?case
  proof (cases "d < 6")
    case False
    then show ?thesis by (simp add: dfs_loop_stack.simps[of frames d] dfs_loop.simps[of d])
  next
    case d: True
    define ny where "ny = int y + dy ! (y mod 2) ! d"
    define nx where "nx = int x + dx ! (y mod 2) ! d"
    note ih = 3[OF d ny_def nx_def]
    show ?thesis
    proof (cases "ny < 0 \<or> nx < 0 \<or> ny > H s + 1 \<or> nx > W s + 1")
      case True
      then have "dfs_loop_stack frames d y x s totalCount =
                 dfs_loop_stack frames (d + 1) y x s totalCount"
        "dfs_loop d y x s totalCount = dfs_loop (d + 1) y x s totalCount"
        using d by (simp_all add: dfs_loop_stack.simps[of frames d] dfs_loop.simps[of d]
                      ny_def nx_def Let_def)
      with ih(1)[OF True] show ?thesis by simp
    next
      case g: False
      show ?thesis
      proof (cases "has_row (grid s) (nat ny)")
        case False
        with g d show ?thesis
          by (simp add: dfs_loop_stack.simps[of frames d] dfs_loop.simps[of d]
                      ny_def nx_def Let_def)
      next
        case r: True
        show ?thesis
        proof (cases "at2 (grid s) (nat ny) (nat nx) = Some 1")
          case True
          let ?s = "s\<lparr>perimeterEdges := perimeterEdges s @
                       [\<lparr>ex = nat nx, ey = nat ny, dir = (d + 3) mod 6\<rparr>]\<rparr>"
          from True g r d have "dfs_loop_stack frames d y x s totalCount =
                 dfs_loop_stack frames (d + 1) y x ?s (totalCount + 1)"
            "dfs_loop d y x s totalCount = dfs_loop (d + 1) y x ?s (totalCount + 1)"
            by (simp_all add: dfs_loop_stack.simps[of frames d] dfs_loop.simps[of d]
                      ny_def nx_def Let_def)
          with ih(2)[OF g _ True] r show ?thesis by simp
        next
          case e: False
          have u1: "dfs_loop_stack frames d y x s totalCount =
              (case dfs_stack frames (nat ny) (nat nx) s totalCount of
                   Inl e \<Rightarrow> Inl e
                 | Inr (s', totalCount') \<Rightarrow> dfs_loop_stack frames (d + 1) y x s' totalCount')"
            using e g r d by (simp add: dfs_loop_stack.simps[of frames d] ny_def nx_def Let_def)
          have u2: "dfs_loop d y x s totalCount =
              (case dfs (nat ny) (nat nx) s totalCount of
                   Inl e \<Rightarrow> Inl e
                 | Inr (s', totalCount') \<Rightarrow> dfs_loop (d + 1) y x s' totalCount')"
            using e g r d by (simp add: dfs_loop.simps[of d] ny_def nx_def Let_def)
          from ih(3)[OF g _ e] r
          consider "dfs_stack frames (nat ny) (nat nx) s totalCount = Inl StackOverflow"
            | "dfs_stack frames (nat ny) (nat nx) s totalCount = dfs (nat ny) (nat nx) s totalCount"
            by auto
          then show ?thesis
          proof cases
            case 1
            then show ?thesis by (simp add: u1)
          next
            case 2
            show ?thesis
            proof (cases "dfs (nat ny) (nat nx) s totalCount")
              case (Inl err)
              with 2 show ?thesis by (simp add: u1 u2)
            next
              case (Inr p)
              obtain s' c' where p: "p = (s', c')" by (cases p)
              from ih(4)[OF g _ e _ , of "(s', c')" s' c'] r 2 Inr p
              have "dfs_loop_stack frames (d + 1) y x s' c' = Inl StackOverflow \<or>
                    dfs_loop_stack frames (d + 1) y x s' c' = dfs_loop (d + 1) y x s' c'"
                by simp
              with 2 Inr p show ?thesis by (auto simp: u1 u2)
            qed
          qed
        qed
      qed
    qed
  qed
qed


lemma dfs_stack_enough:
  "in_bounds s y x \<Longrightarrow> card (unvisited s) < k \<Longrightarrow> dfs_stack k y x s c = dfs y x s c"
  "card (unvisited s) < k \<Longrightarrow> dfs_loop_stack k d y x s c = dfs_loop d y x s c"
proof (induction k y x s c and k d y x s c rule: dfs_stack_dfs_loop_stack.induct)
  case (1 y x s totalCount)
  then show ?case by simp
next
  case (2 frames y x s totalCount)
  let ?s1 = "s\<lparr>isVisited := mark (isVisited s) y x\<rparr>"
  show ?case
  proof (cases "has_row (grid s) y \<and> at2 (grid s) y x \<noteq> Some 1 \<and> has_row (isVisited s) y \<and>
                at2 (isVisited s) y x \<noteq> Some True")
    case False
    then show ?thesis by (subst dfs_stack.simps, subst dfs.simps) auto
  next
    case True
    then have "card (unvisited ?s1) < card (unvisited s)"
      using mark_unvisited[of s y x] "2.prems"(1) by (simp add: marked_def)
    with "2.prems"(2) have "card (unvisited ?s1) < frames" by simp
    with "2.IH" True have "dfs_loop_stack frames 0 y x ?s1 totalCount = dfs_loop 0 y x ?s1 totalCount"
      by simp
    with True show ?thesis by (subst dfs_stack.simps, subst dfs.simps) simp
  qed
next
  case (3 frames d y x s totalCount)
  note en = "3.prems"
  show ?case
  proof (cases "d < 6")
    case False
    then show ?thesis by (simp add: dfs_loop_stack.simps[of frames d] dfs_loop.simps[of d])
  next
    case d: True
    define ny where "ny = int y + dy ! (y mod 2) ! d"
    define nx where "nx = int x + dx ! (y mod 2) ! d"
    note ih = "3.IH"[OF d ny_def nx_def]
    show ?thesis
    proof (cases "ny < 0 \<or> nx < 0 \<or> ny > H s + 1 \<or> nx > W s + 1")
      case True
      then have "dfs_loop_stack frames d y x s totalCount =
                 dfs_loop_stack frames (d + 1) y x s totalCount"
        "dfs_loop d y x s totalCount = dfs_loop (d + 1) y x s totalCount"
        using d by (simp_all add: dfs_loop_stack.simps[of frames d] dfs_loop.simps[of d]
                      ny_def nx_def Let_def)
      with ih(1)[OF True en] show ?thesis by simp
    next
      case g: False
      then have ib: "in_bounds s (nat ny) (nat nx)" by (simp add: in_bounds_def)
      show ?thesis
      proof (cases "has_row (grid s) (nat ny)")
        case False
        with g d show ?thesis
          by (simp add: dfs_loop_stack.simps[of frames d] dfs_loop.simps[of d]
                      ny_def nx_def Let_def)
      next
        case r: True
        show ?thesis
        proof (cases "at2 (grid s) (nat ny) (nat nx) = Some 1")
          case True
          let ?s = "s\<lparr>perimeterEdges := perimeterEdges s @
                       [\<lparr>ex = nat nx, ey = nat ny, dir = (d + 3) mod 6\<rparr>]\<rparr>"
          from True g r d have u: "dfs_loop_stack frames d y x s totalCount =
                 dfs_loop_stack frames (d + 1) y x ?s (totalCount + 1)"
            "dfs_loop d y x s totalCount = dfs_loop (d + 1) y x ?s (totalCount + 1)"
            by (simp_all add: dfs_loop_stack.simps[of frames d] dfs_loop.simps[of d]
                      ny_def nx_def Let_def)
          have "card (unvisited ?s) \<le> card (unvisited s)"
            by (rule keeps_unvisited) (rule keeps_push)
          with en have "card (unvisited ?s) < frames" by simp
          with ih(2)[OF g _ True] r u show ?thesis by simp
        next
          case e: False
          have u1: "dfs_loop_stack frames d y x s totalCount =
              (case dfs_stack frames (nat ny) (nat nx) s totalCount of
                   Inl e \<Rightarrow> Inl e
                 | Inr (s', totalCount') \<Rightarrow> dfs_loop_stack frames (d + 1) y x s' totalCount')"
            using e g r d by (simp add: dfs_loop_stack.simps[of frames d] ny_def nx_def Let_def)
          have u2: "dfs_loop d y x s totalCount =
              (case dfs (nat ny) (nat nx) s totalCount of
                   Inl e \<Rightarrow> Inl e
                 | Inr (s', totalCount') \<Rightarrow> dfs_loop (d + 1) y x s' totalCount')"
            using e g r d by (simp add: dfs_loop.simps[of d] ny_def nx_def Let_def)
          from ih(3)[OF g _ e ib en] r
          have c: "dfs_stack frames (nat ny) (nat nx) s totalCount = dfs (nat ny) (nat nx) s totalCount"
            by simp
          show ?thesis
          proof (cases "dfs (nat ny) (nat nx) s totalCount")
            case (Inl err)
            with c show ?thesis by (simp add: u1 u2)
          next
            case (Inr p)
            obtain s' c' where p: "p = (s', c')" by (cases p)
            from Inr p have "keeps s s'" using dfs_keeps(1) by blast
            from keeps_unvisited[OF this] en have "card (unvisited s') < frames" by simp
            with ih(4)[OF g _ e _ , of "(s', c')" s' c'] r c Inr p
            have "dfs_loop_stack frames (d + 1) y x s' c' = dfs_loop (d + 1) y x s' c'"
              by simp
            with c Inr p show ?thesis by (simp add: u1 u2)
          qed
        qed
      qed
    qed
  qed
qed

lemma card_unvisited_le: "- 1 \<le> H s \<Longrightarrow> - 1 \<le> W s \<Longrightarrow> int (card (unvisited s)) \<le> (H s + 2) * (W s + 2)"
proof -
  assume a: "- 1 \<le> H s" "- 1 \<le> W s"
  have "unvisited s \<subseteq> {..<nat (H s + 2)} \<times> {..<nat (W s + 2)}"
    by (auto simp: unvisited_def in_bounds_def)
  then have "card (unvisited s) \<le> card ({..<nat (H s + 2)} \<times> {..<nat (W s + 2)})"
    by (rule card_mono[rotated]) simp
  then have "card (unvisited s) \<le> nat (H s + 2) * nat (W s + 2)" by simp
  then have "int (card (unvisited s)) \<le> int (nat (H s + 2) * nat (W s + 2))" by linarith
  with a show ?thesis by simp
qed

lemma computePerimeter_stack_cases:
  "computePerimeter_stack k s = Inl StackOverflow \<or> computePerimeter_stack k s = computePerimeter s"
proof (cases "new_matrix (H s + 2) (W s + 2) False")
  case (Inl e)
  then show ?thesis by (simp add: computePerimeter_stack_def computePerimeter_def)
next
  case (Inr v)
  with dfs_stack_cases(1)[of k 0 0 "s\<lparr>isVisited := v, perimeterEdges := []\<rparr>" 0]
  show ?thesis by (auto simp: computePerimeter_stack_def computePerimeter_def)
qed

lemma computePerimeter_stack_enough:
  assumes "wf_grid s" "(H s + 2) * (W s + 2) < int k"
  shows "computePerimeter_stack k s = computePerimeter s"
proof -
  define v where "v = replicate (nat (H s + 2)) (replicate (nat (W s + 2)) False)"
  define s0 where "s0 = s\<lparr>isVisited := v, perimeterEdges := []\<rparr>"
  have nm: "new_matrix (H s + 2) (W s + 2) False = Inr v"
    using assms(1) by (simp add: new_matrix_def wf_grid_def v_def)
  have "int (card (unvisited s0)) \<le> (H s0 + 2) * (W s0 + 2)"
    using assms(1) by (intro card_unvisited_le) (simp_all add: wf_grid_def s0_def)
  with assms(2) have "card (unvisited s0) < k" by (simp add: s0_def)
  moreover have "in_bounds s0 0 0" using assms(1) by (simp add: in_bounds_def wf_grid_def s0_def)
  ultimately have "dfs_stack k 0 0 s0 0 = dfs 0 0 s0 0" by (rule dfs_stack_enough(1)[rotated])
  with nm show ?thesis by (simp add: computePerimeter_stack_def computePerimeter_def s0_def)
qed

lemma row_overflow:
  assumes "has_row (grid s) 0" "has_row (isVisited s) 0" "- 1 \<le> H s"
    and "\<forall>x'. x \<le> x' \<longrightarrow> int x' \<le> W s + 1 \<longrightarrow> at2 (grid s) 0 x' \<noteq> Some 1 \<and> \<not> marked s 0 x'"
    and "int (x + k) \<le> W s + 1"
  shows "dfs_stack k 0 x s c = Inl StackOverflow"
  using assms
proof (induction k arbitrary: x s)
  case 0
  then show ?case by (simp add: dfs_stack.simps)
next
  case (Suc k)
  let ?s1 = "s\<lparr>isVisited := mark (isVisited s) 0 x\<rparr>"
  from Suc.prems(4,5) have here: "at2 (grid s) 0 x \<noteq> Some 1" "at2 (isVisited s) 0 x \<noteq> Some True"
    and nxt: "at2 (grid s) 0 (Suc x) \<noteq> Some 1"
    by (auto simp: marked_def)
  have "dfs_stack k 0 (Suc x) ?s1 c = Inl StackOverflow"
  proof (rule Suc.IH)
    show "has_row (grid ?s1) 0" using Suc.prems(1) by simp
    show "has_row (isVisited ?s1) 0" using Suc.prems(2) by (simp add: has_row_def mark_def)
    show "- 1 \<le> H ?s1" using Suc.prems(3) by simp
    show "\<forall>x'. Suc x \<le> x' \<longrightarrow> int x' \<le> W ?s1 + 1 \<longrightarrow>
            at2 (grid ?s1) 0 x' \<noteq> Some 1 \<and> \<not> marked ?s1 0 x'"
      using Suc.prems(4) marked_mark[OF Suc.prems(2), of x] by auto
    show "int (Suc x + k) \<le> W ?s1 + 1" using Suc.prems(5) by simp
  qed
  moreover have "dfs_loop_stack k 0 0 x ?s1 c =
      (case dfs_stack k 0 (Suc x) ?s1 c of Inl e \<Rightarrow> Inl e
       | Inr (s', c') \<Rightarrow> dfs_loop_stack k (0 + 1) 0 x s' c')"
    using Suc.prems(1,3,5) nxt
    by (subst dfs_loop_stack.simps) (simp add: dx_def dy_def Let_def nat_add_distrib)
  ultimately have "dfs_loop_stack k 0 0 x ?s1 c = Inl StackOverflow" by simp
  with here Suc.prems(1,2) show ?case by (subst dfs_stack.simps) simp
qed

lemma draw_stack_enough:
  assumes "wf_grid s" "(H s + 2) * (W s + 2) < int k"
  shows "draw_stack k s = draw s"
  by (simp add: draw_stack_def draw_def computePerimeter_stack_enough[OF assms])

lemma initEmptyGrid_stack_enough:
  assumes "- 1 \<le> w" "- 1 \<le> h" "w + 2 \<le> max_array_length" "h + 2 \<le> max_array_length"
    and "(h + 2) * (w + 2) < int k"
  shows "initEmptyGrid_stack k w h s = initEmptyGrid w h s"
proof -
  let ?s = "s\<lparr>W := w, H := h, grid := replicate (nat (h + 2)) (replicate (nat (w + 2)) 0)\<rparr>"
  have "wf_grid ?s" using assms by (simp add: wf_grid_def list_all_length)
  from draw_stack_enough[OF this, of k] assms show ?thesis
    by (simp add: initEmptyGrid_stack_def initEmptyGrid_def new_matrix_def
          resizeCanvas_stack_def resizeCanvas_def)
qed

lemma loadFromInput_stack_enough:
  assumes "- 1 \<le> w" "- 1 \<le> h" "w + 2 \<le> max_array_length" "h + 2 \<le> max_array_length"
    and "(h + 2) * (w + 2) < int k"
  shows "loadFromInput_stack k (w, h) rows s = loadFromInput (w, h) rows s"
proof -
  define g where "g = replicate (nat (h + 2)) (replicate (nat (w + 2)) (0::jsnum))"
  have nm: "new_matrix (h + 2) (w + 2) (0::jsnum) = Inr g"
    using assms by (simp add: new_matrix_def g_def)
  show ?thesis
  proof (cases "fill_rows rows w [1..h] g")
    case (Inl e)
    with nm show ?thesis by (simp add: loadFromInput_stack_def loadFromInput_def)
  next
    case (Inr g')
    note sh = fill_rows_shape[OF Inr]
    have "wf_grid (s\<lparr>W := w, H := h, grid := g'\<rparr>)"
      using assms sh by (simp add: wf_grid_def list_all_length g_def)
    from draw_stack_enough[OF this, of k] assms nm Inr show ?thesis
      by (simp add: loadFromInput_stack_def loadFromInput_def
            resizeCanvas_stack_def resizeCanvas_def)
  qed
qed

section \<open>Theorems\<close>

text \<open>
  C1. On a grid of (H+2) rows and (W+2) columns with an empty border ring the trace
  returns the number of pairs of an empty cell reachable from the corner and a filled
  neighbour of it, and the edge list holds, for each such pair, exactly one entry with
  the filled cell and the direction back, and no other entry.
\<close>

theorem computePerimeter_counts_exposed_pairs:
  assumes "wf_grid s" "border_empty s"
  shows "\<exists>n s'. computePerimeter s = Inr (n, s') \<and>
           n = card (exposed_pairs s) \<and> length (perimeterEdges s') = n \<and>
           (\<forall>y x d y' x'. reach s y x \<longrightarrow> d < 6 \<longrightarrow> nbr s y x d = Some (y', x') \<longrightarrow> filled s y' x'
              \<longrightarrow> count_list (perimeterEdges s') \<lparr>ex = x', ey = y', dir = (d + 3) mod 6\<rparr> = 1) \<and>
           (\<forall>e \<in> set (perimeterEdges s'). \<exists>y x d. reach s y x \<and> d < 6 \<and>
              nbr s y x d = Some (ey e, ex e) \<and> filled s (ey e) (ex e) \<and> dir e = (d + 3) mod 6)"
proof -
  note wf = assms(1)
  from computePerimeter_trace[OF wf] obtain n s' where
    run: "computePerimeter s = Inr (n, s')" and n: "n = length (perimeterEdges s')"
    and di: "distinct (perimeterEdges s')" and se: "set (perimeterEdges s') = lit s"
    by blast
  have "card (lit s) = n" using distinct_card[OF di] se n by simp
  then have cnt: "n = card (exposed_pairs s)" using card_exposed_pairs[OF wf] by simp
  have one: "count_list (perimeterEdges s') \<lparr>ex = x', ey = y', dir = (d + 3) mod 6\<rparr> = 1"
    if r: "reach s y x" and d: "d < 6" and nb: "nbr s y x d = Some (y', x')" and f: "filled s y' x'"
    for y x d y' x'
  proof -
    from reach_in_bounds[OF wf r] have "in_bounds s y x" by simp
    from nbr_back[OF this d nb] have "nbr s y' x' ((d + 3) mod 6) = Some (y, x)" .
    with f r have "\<lparr>ex = x', ey = y', dir = (d + 3) mod 6\<rparr> \<in> lit s" by (simp add: lit_def)
    with di se show ?thesis by (simp add: count_list_distinct)
  qed
  have only: "\<exists>y x d. reach s y x \<and> d < 6 \<and> nbr s y x d = Some (ey e, ex e) \<and>
      filled s (ey e) (ex e) \<and> dir e = (d + 3) mod 6" if "e \<in> set (perimeterEdges s')" for e
  proof -
    from that se obtain y x where f: "filled s (ey e) (ex e)" and k: "dir e < 6"
      and nb: "nbr s (ey e) (ex e) (dir e) = Some (y, x)" and r: "reach s y x"
      by (auto simp: lit_def)
    from nbr_back[OF filled_in_bounds[OF wf f] k nb]
    have "nbr s y x ((dir e + 3) mod 6) = Some (ey e, ex e)" .
    moreover have "(dir e + 3) mod 6 < 6" by simp
    moreover have "dir e = (((dir e + 3) mod 6) + 3) mod 6" using back_back[OF k] by simp
    ultimately show ?thesis using f r by blast
  qed
  show ?thesis
  proof (intro exI conjI)
    show "computePerimeter s = Inr (n, s')" by (rule run)
    show "n = card (exposed_pairs s)" by (rule cnt)
    show "length (perimeterEdges s') = n" using n by simp
    show "\<forall>y x d y' x'. reach s y x \<longrightarrow> d < 6 \<longrightarrow> nbr s y x d = Some (y', x') \<longrightarrow> filled s y' x'
              \<longrightarrow> count_list (perimeterEdges s') \<lparr>ex = x', ey = y', dir = (d + 3) mod 6\<rparr> = 1"
      using one by blast
    show "\<forall>e \<in> set (perimeterEdges s'). \<exists>y x d. reach s y x \<and> d < 6 \<and>
              nbr s y x d = Some (ey e, ex e) \<and> filled s (ey e) (ex e) \<and> dir e = (d + 3) mod 6"
      using only by blast
  qed
qed

theorem computePerimeter_counts_exposed_pairs_witness:
  "wf_grid single_cell \<and> border_empty single_cell \<and>
   (\<exists>n s'. computePerimeter single_cell = Inr (n, s') \<and> n = card (exposed_pairs single_cell) \<and>
      length (perimeterEdges s') = n)"
proof -
  have "border_empty single_cell" by code_simp
  with computePerimeter_counts_exposed_pairs[OF wf_single_cell this] wf_single_cell
  show ?thesis by blast
qed

text \<open>
  C2. For every row and every direction 0 to 5, the offset that the loop of the search
  adds to the cell, \<open>(dx[row % 2][d], dy[row % 2][d])\<close>, is the entry of the
  specification's parity table.
\<close>

theorem neighbour_offsets_match_table:
  "map (\<lambda>d. (dx ! (row mod 2) ! d, dy ! (row mod 2) ! d)) [0..<6] = spec_offsets row"
proof (cases "even row")
  case True
  then have "row mod 2 = 0" by presburger
  then show ?thesis using True
    by (simp add: spec_offsets_def dx_def dy_def upt_rec[of 0] upt_rec[of 1] upt_rec[of 2]
        upt_rec[of 3] upt_rec[of 4] upt_rec[of 5] upt_rec[of 6] numeral_nat)
next
  case False
  then have "row mod 2 = 1" by presburger
  then show ?thesis using False
    by (simp add: spec_offsets_def dx_def dy_def upt_rec[of 0] upt_rec[of 1] upt_rec[of 2]
        upt_rec[of 3] upt_rec[of 4] upt_rec[of 5] upt_rec[of 6] numeral_nat)
qed

text \<open>
  C3. In one trace no side of a filled cell is listed twice, and every entry names a
  filled cell and a side across which lies an empty cell reachable from the corner: never
  a side between two filled cells, never one between two empty cells.
\<close>

theorem edge_once_per_exposed_side:
  assumes "wf_grid s" "computePerimeter s = Inr (n, s')"
  shows "distinct (perimeterEdges s') \<and>
         (\<forall>e \<in> set (perimeterEdges s'). filled s (ey e) (ex e) \<and> dir e < 6 \<and>
            (\<exists>y x. nbr s (ey e) (ex e) (dir e) = Some (y, x) \<and> reach s y x \<and> \<not> filled s y x))"
  using computePerimeter_trace[OF assms(1)] assms(2) lit_sound[OF assms(1)] by auto

theorem edge_once_per_exposed_side_witness:
  "wf_grid single_cell \<and>
   (\<exists>n s'. computePerimeter single_cell = Inr (n, s') \<and> distinct (perimeterEdges s') \<and>
      list_all (\<lambda>e. filled single_cell (ey e) (ex e) \<and> dir e < 6) (perimeterEdges s'))"
proof -
  from computePerimeter_trace[OF wf_single_cell] obtain n s' where
    r: "computePerimeter single_cell = Inr (n, s')" by blast
  from edge_once_per_exposed_side[OF wf_single_cell r] r wf_single_cell show ?thesis
    by (auto simp: list_all_iff)
qed

text \<open>
  C4. The methods that change the grid keep the border ring empty: the object returned
  by \<open>initEmptyGrid\<close> has an empty ring, and \<open>loadFromInput\<close> and a click keep it
  empty (a load with no data line and a click off every cell change nothing).
\<close>

theorem border_ring_preserved:
  "(initEmptyGrid w h s = Inr s' \<longrightarrow> border_empty s') \<and>
   (border_empty s \<longrightarrow> loadFromInput header rows s = Inr s' \<longrightarrow> border_empty s') \<and>
   (border_empty s \<longrightarrow> handleClick mouse_dist s = Inr s' \<longrightarrow> border_empty s')"
proof (intro conjI impI)
  assume "initEmptyGrid w h s = Inr s'"
  from initEmptyGrid_result[OF this] have "\<not> filled s' y x" for y x
    using not_filled_zeros[of s'] by blast
  then show "border_empty s'" by (simp add: border_empty_def)
next
  assume b: "border_empty s" and l: "loadFromInput header rows s = Inr s'"
  show "border_empty s'"
  proof (cases "rows = []")
    case True
    with l b show ?thesis by (simp add: loadFromInput_def)
  next
    case False
    obtain w h where "header = (w, h)" by (cases header)
    with loadFromInput_result[of w h rows s s'] l False show ?thesis by simp
  qed
next
  assume "border_empty s" "handleClick mouse_dist s = Inr s'"
  then show "border_empty s'" using handleClick_border by blast
qed

theorem border_ring_preserved_witness:
  "border_empty single_cell \<and>
   (\<exists>s'. initEmptyGrid 8 4 single_cell = Inr s' \<and> border_empty s') \<and>
   (\<exists>s'. loadFromInput (2, 1) [[1, 0]] single_cell = Inr s' \<and> border_empty s') \<and>
   (\<exists>s'. handleClick (\<lambda>x y. if x = 2 \<and> y = 2 then 0 else 100) single_cell = Inr s' \<and>
      border_empty s')"
proof -
  have b: "border_empty single_cell" by code_simp
  obtain s1 where 1: "initEmptyGrid 8 4 single_cell = Inr s1"
    using initEmptyGrid_total[of 8 4 single_cell] by (auto simp: max_array_length_def)
  obtain s2 where 2: "loadFromInput (2, 1) [[1, 0]] single_cell = Inr s2"
    using loadFromInput_total[of 2 1 "[[1, 0]]" single_cell]
    by (auto simp: max_array_length_def)
  obtain s3 where 3: "handleClick (\<lambda>x y. if x = 2 \<and> y = 2 then 0 else 100) single_cell = Inr s3"
    using handleClick_total[OF wf_single_cell] by blast
  from border_ring_preserved[of 8 4 single_cell s1 "(2, 1)" "[[1, 0]]"] 1
  have "border_empty s1" by blast
  moreover from border_ring_preserved[of _ _ single_cell s2 "(2, 1)" "[[1, 0]]"] 2 b
  have "border_empty s2" by blast
  moreover from border_ring_preserved[of _ _ single_cell s3 _ _ "\<lambda>x y. if x = 2 \<and> y = 2 then 0 else 100"] 3 b
  have "border_empty s3" by blast
  ultimately show ?thesis using b 1 2 3 by blast
qed

text \<open>
  C5. One filled cell that does not touch the border of the content area, in a grid of
  width and height at least 3: the trace returns 6 and the edge list has six entries,
  that cell with each of the sides 0 to 5.
\<close>

theorem single_cell_six_edges:
  assumes "wf_grid s" "3 \<le> W s" "3 \<le> H s"
    and "2 \<le> r" "int r \<le> H s - 1" "2 \<le> q" "int q \<le> W s - 1"
    and "\<forall>y x. filled s y x \<longleftrightarrow> (y = r \<and> x = q)"
  shows "\<exists>n s'. computePerimeter s = Inr (n, s') \<and> n = 6 \<and> length (perimeterEdges s') = 6 \<and>
           set (perimeterEdges s') = {\<lparr>ex = q, ey = r, dir = k\<rparr> | k. k < 6}"
proof -
  note wf = assms(1) and only = assms(8)
  have be: "border_empty s"
    using only assms(4-7) by (auto simp: border_empty_def)
  from computePerimeter_trace[OF wf] obtain n s' where
    run: "computePerimeter s = Inr (n, s')" and n: "n = length (perimeterEdges s')"
    and di: "distinct (perimeterEdges s')" and se: "set (perimeterEdges s') = lit s"
    by blast
  have "lit s = {\<lparr>ex = q, ey = r, dir = k\<rparr> | k. k < 6}"
  proof (intro set_eqI iffI)
    fix e assume "e \<in> lit s"
    then have "ey e = r" "ex e = q" "dir e < 6" using only by (auto simp: lit_def)
    then have "e = \<lparr>ex = q, ey = r, dir = dir e\<rparr>" by (simp add: edge_eqI)
    with \<open>dir e < 6\<close> show "e \<in> {\<lparr>ex = q, ey = r, dir = k\<rparr> | k. k < 6}" by blast
  next
    fix e assume "e \<in> {\<lparr>ex = q, ey = r, dir = k\<rparr> | k. k < 6}"
    then obtain k where e: "e = \<lparr>ex = q, ey = r, dir = k\<rparr>" and k: "k < 6" by blast
    from nbr_interior[of r s q k] assms(4-7) k
    obtain y' x' where nb: "nbr s r q k = Some (y', x')" and ne: "(y', x') \<noteq> (r, q)"
      and ib: "in_bounds s y' x'" by auto
    from ne only have "\<not> filled s y' x'" by simp
    from reach_one_hole[OF wf be only ib this] have "reach s y' x'" .
    with nb k only show "e \<in> lit s" by (simp add: lit_def e)
  qed
  with se have S: "set (perimeterEdges s') = {\<lparr>ex = q, ey = r, dir = k\<rparr> | k. k < 6}" by simp
  have "length (perimeterEdges s') = card (set (perimeterEdges s'))"
    using distinct_card[OF di] by simp
  also have "\<dots> = 6" unfolding S card_sides by (rule card_six)
  finally have "length (perimeterEdges s') = 6" .
  with run n S show ?thesis by simp
qed

theorem single_cell_six_edges_witness:
  "wf_grid single_cell \<and> filled_cells single_cell = [(2, 2)] \<and>
   (\<exists>n s'. computePerimeter single_cell = Inr (n, s') \<and> n = 6 \<and>
      set (perimeterEdges s') = {\<lparr>ex = 2, ey = 2, dir = k\<rparr> | k. k < 6})"
proof -
  have c: "filled_cells single_cell = [(2, 2)]" by code_simp
  then have only: "\<forall>y x. filled single_cell y x \<longleftrightarrow> (y = 2 \<and> x = 2)"
    by (simp add: filled_iff_cells)
  have d: "3 \<le> W single_cell" "3 \<le> H single_cell" "int 2 \<le> H single_cell - 1"
    "int 2 \<le> W single_cell - 1"
    by (simp_all add: single_cell_def)
  from single_cell_six_edges[OF wf_single_cell d(1,2) _ d(3) _ d(4) only] c wf_single_cell
  show ?thesis by auto
qed

text \<open>
  C6. Two filled content cells that are neighbours, nothing else filled and the border
  ring empty: the trace returns 10, and the two sides by which the cells touch, side
  \<open>d\<close> of the one and side \<open>(d + 3) mod 6\<close> of the other, are not in the edge list; the
  other five sides of each are.
\<close>

theorem adjacent_pair_ten_edges:
  assumes "wf_grid s" "border_empty s" "d < 6" "nbr s r1 q1 d = Some (r2, q2)"
    and "\<forall>y x. filled s y x \<longleftrightarrow> (y = r1 \<and> x = q1) \<or> (y = r2 \<and> x = q2)"
  shows "\<exists>n s'. computePerimeter s = Inr (n, s') \<and> n = 10 \<and> length (perimeterEdges s') = 10 \<and>
           \<lparr>ex = q1, ey = r1, dir = d\<rparr> \<notin> set (perimeterEdges s') \<and>
           \<lparr>ex = q2, ey = r2, dir = (d + 3) mod 6\<rparr> \<notin> set (perimeterEdges s') \<and>
           set (perimeterEdges s') =
             {\<lparr>ex = q1, ey = r1, dir = k\<rparr> | k. k < 6 \<and> k \<noteq> d} \<union>
             {\<lparr>ex = q2, ey = r2, dir = k\<rparr> | k. k < 6 \<and> k \<noteq> (d + 3) mod 6}"
proof -
  note wf = assms(1) and be = assms(2) and d = assms(3) and adj = assms(4) and only = assms(5)
  define d' where "d' = (d + 3) mod 6"
  have d': "d' < 6" by (simp add: d'_def)
  have f1: "filled s r1 q1" and f2: "filled s r2 q2" using only by simp_all
  note c1 = content_of_filled[OF wf be f1] and c2 = content_of_filled[OF wf be f2]
  have bk: "nbr s r2 q2 d' = Some (r1, q1)"
    unfolding d'_def using nbr_back[OF filled_in_bounds[OF wf f1] d adj] .
  have ne: "(r1, q1) \<noteq> (r2, q2)"
    using nbr_interior[of r1 s q1 d] c1 d adj by auto
  have side1: "(\<exists>y x. nbr s r1 q1 k = Some (y, x) \<and> reach s y x) \<longleftrightarrow> k \<noteq> d" if k: "k < 6" for k
  proof -
    from nbr_interior[of r1 s q1 k] c1 k
    obtain y x where nb: "nbr s r1 q1 k = Some (y, x)" and n1: "(y, x) \<noteq> (r1, q1)"
      and ib: "in_bounds s y x" by auto
    show ?thesis
    proof (cases "k = d")
      case True
      with nb adj f2 reach_in_bounds[OF wf] show ?thesis by auto
    next
      case False
      have "(y, x) \<noteq> (r2, q2)" using nbr_inj[OF k d, of s r1 q1 "(r2, q2)"] nb adj False by auto
      with n1 only have "\<not> filled s y x" by auto
      from reach_two_holes[OF wf be only ib this] nb False show ?thesis by simp
    qed
  qed
  have side2: "(\<exists>y x. nbr s r2 q2 k = Some (y, x) \<and> reach s y x) \<longleftrightarrow> k \<noteq> d'" if k: "k < 6" for k
  proof -
    from nbr_interior[of r2 s q2 k] c2 k
    obtain y x where nb: "nbr s r2 q2 k = Some (y, x)" and n2: "(y, x) \<noteq> (r2, q2)"
      and ib: "in_bounds s y x" by auto
    show ?thesis
    proof (cases "k = d'")
      case True
      with nb bk f1 reach_in_bounds[OF wf] show ?thesis by auto
    next
      case False
      have "(y, x) \<noteq> (r1, q1)" using nbr_inj[OF k d', of s r2 q2 "(r1, q1)"] nb bk False by auto
      with n2 only have "\<not> filled s y x" by auto
      from reach_two_holes[OF wf be only ib this] nb False show ?thesis by simp
    qed
  qed
  let ?A = "{\<lparr>ex = q1, ey = r1, dir = k\<rparr> | k. k < 6 \<and> k \<noteq> d}"
  let ?B = "{\<lparr>ex = q2, ey = r2, dir = k\<rparr> | k. k < 6 \<and> k \<noteq> d'}"
  have L: "lit s = ?A \<union> ?B"
  proof (intro set_eqI iffI)
    fix e assume e: "e \<in> lit s"
    then have k: "dir e < 6" and f: "filled s (ey e) (ex e)"
      and r: "\<exists>y x. nbr s (ey e) (ex e) (dir e) = Some (y, x) \<and> reach s y x"
      by (auto simp: lit_def)
    from f only consider "ey e = r1" "ex e = q1" | "ey e = r2" "ex e = q2" by auto
    then show "e \<in> ?A \<union> ?B"
    proof cases
      case 1
      with r side1[OF k] have "dir e \<noteq> d" by simp
      moreover have "e = \<lparr>ex = q1, ey = r1, dir = dir e\<rparr>" using 1 by (simp add: edge_eqI)
      ultimately show ?thesis using k by blast
    next
      case 2
      with r side2[OF k] have "dir e \<noteq> d'" by simp
      moreover have "e = \<lparr>ex = q2, ey = r2, dir = dir e\<rparr>" using 2 by (simp add: edge_eqI)
      ultimately show ?thesis using k by blast
    qed
  next
    fix e assume "e \<in> ?A \<union> ?B"
    then consider k where "e = \<lparr>ex = q1, ey = r1, dir = k\<rparr>" "k < 6" "k \<noteq> d"
      | k where "e = \<lparr>ex = q2, ey = r2, dir = k\<rparr>" "k < 6" "k \<noteq> d'" by blast
    then show "e \<in> lit s"
    proof cases
      case 1
      with side1[of k] f1 show ?thesis by (simp add: lit_def)
    next
      case 2
      with side2[of k] f2 show ?thesis by (simp add: lit_def)
    qed
  qed
  have dj: "?A \<inter> ?B = {}" using ne by auto
  have fin: "finite ?A" "finite ?B" by simp_all
  have "card (?A \<union> ?B) = card ?A + card ?B" using card_Un_disjoint[OF fin dj] .
  also have "\<dots> = 10" unfolding card_sides using card_five[OF d] card_five[OF d'] by simp
  finally have ten: "card (lit s) = 10" using L by simp
  from computePerimeter_trace[OF wf] obtain n s' where
    run: "computePerimeter s = Inr (n, s')" and n: "n = length (perimeterEdges s')"
    and di: "distinct (perimeterEdges s')" and se: "set (perimeterEdges s') = lit s"
    by blast
  have len: "length (perimeterEdges s') = 10" using distinct_card[OF di] se ten by simp
  have "\<lparr>ex = q1, ey = r1, dir = d\<rparr> \<notin> ?A \<union> ?B" using ne by auto
  moreover have "\<lparr>ex = q2, ey = r2, dir = d'\<rparr> \<notin> ?A \<union> ?B" using ne by auto
  ultimately show ?thesis using run n len se L unfolding d'_def by auto
qed

theorem adjacent_pair_ten_edges_witness:
  "wf_grid pair_cells \<and> border_empty pair_cells \<and> nbr pair_cells 2 2 0 = Some (2, 3) \<and>
   filled_cells pair_cells = [(2, 2), (2, 3)] \<and>
   (\<exists>n s'. computePerimeter pair_cells = Inr (n, s') \<and> n = 10 \<and>
      \<lparr>ex = 2, ey = 2, dir = 0\<rparr> \<notin> set (perimeterEdges s') \<and>
      \<lparr>ex = 3, ey = 2, dir = 3\<rparr> \<notin> set (perimeterEdges s'))"
proof -
  have wf: "wf_grid pair_cells" by code_simp
  have be: "border_empty pair_cells" by code_simp
  have nb: "nbr pair_cells 2 2 0 = Some (2, 3)" by code_simp
  have c: "filled_cells pair_cells = [(2, 2), (2, 3)]" by code_simp
  then have only: "\<forall>y x. filled pair_cells y x \<longleftrightarrow> (y = 2 \<and> x = 2) \<or> (y = 2 \<and> x = 3)"
    by (auto simp: filled_iff_cells)
  from adjacent_pair_ten_edges[OF wf be _ nb only] wf be nb c show ?thesis by auto
qed

text \<open>
  C7. A filled cell whose neighbours are all filled is named by no entry of the edge
  list and adds nothing to the count. (The neighbours that matter are those inside the
  grid; a cell with all six neighbours filled is a case of it.)
\<close>

theorem enclosed_cell_not_in_perimeter:
  assumes "wf_grid s" "computePerimeter s = Inr (n, s')" "filled s y x"
    and "\<forall>d y' x'. d < 6 \<longrightarrow> nbr s y x d = Some (y', x') \<longrightarrow> filled s y' x'"
  shows "filter (\<lambda>e. ey e = y \<and> ex e = x) (perimeterEdges s') = [] \<and>
         n = length (filter (\<lambda>e. \<not> (ey e = y \<and> ex e = x)) (perimeterEdges s'))"
proof -
  from computePerimeter_trace[OF assms(1)] assms(2)
  have n: "n = length (perimeterEdges s')" and l: "set (perimeterEdges s') = lit s" by auto
  have none: "\<not> (ey e = y \<and> ex e = x)" if "e \<in> set (perimeterEdges s')" for e
  proof
    assume "ey e = y \<and> ex e = x"
    with lit_sound[OF assms(1), of e] that l assms(4) show False by auto
  qed
  then have "filter (\<lambda>e. ey e = y \<and> ex e = x) (perimeterEdges s') = []"
    by (simp add: filter_empty_conv)
  moreover have "filter (\<lambda>e. \<not> (ey e = y \<and> ex e = x)) (perimeterEdges s') = perimeterEdges s'"
    using none by (simp add: filter_id_conv)
  ultimately show ?thesis using n by simp
qed

theorem enclosed_cell_not_in_perimeter_witness:
  "wf_grid full_block \<and> filled full_block 2 2 \<and>
   (\<exists>n s'. computePerimeter full_block = Inr (n, s') \<and>
      filter (\<lambda>e. ey e = 2 \<and> ex e = 2) (perimeterEdges s') = [])"
proof -
  from computePerimeter_trace[OF wf_full_block] obtain n s' where
    r: "computePerimeter full_block = Inr (n, s')" by blast
  have f: "filled full_block 2 2" by (simp add: filled_def at2_def full_block_def)
  have "\<forall>d<6. \<forall>y' x'. nbr full_block 2 2 d = Some (y', x') \<longrightarrow> filled full_block y' x'"
    unfolding all_dirs
    by (simp add: nbr_def Let_def dx_def dy_def filled_def at2_def full_block_def)
  then have "\<forall>d y' x'. d < 6 \<longrightarrow> nbr full_block 2 2 d = Some (y', x') \<longrightarrow> filled full_block y' x'"
    by blast
  from enclosed_cell_not_in_perimeter[OF wf_full_block r f this] r f wf_full_block
  show ?thesis by blast
qed

text \<open>
  C8. A second trace of the unchanged object returns the same count and leaves the same
  edge list (indeed the same object), and the result of a trace depends on W, H and the
  grid only: the visited matrix and the edge list are rebuilt by every call.
\<close>

theorem computePerimeter_idempotent:
  fixes s t :: hexgrid
  shows "(computePerimeter s = Inr (n, s') \<longrightarrow> computePerimeter s' = Inr (n, s')) \<and>
         (same_geo s t \<longrightarrow> computePerimeter t = computePerimeter s)"
  using computePerimeter_again same_geo_computePerimeter by blast

theorem computePerimeter_idempotent_witness:
  "\<exists>n s'. computePerimeter single_cell = Inr (n, s') \<and> computePerimeter s' = Inr (n, s')"
proof -
  from computePerimeter_trace[OF wf_single_cell] obtain n s' where
    r: "computePerimeter single_cell = Inr (n, s')" by blast
  with computePerimeter_idempotent[of single_cell n s' single_cell] show ?thesis by blast
qed

text \<open>
  C9, as the code has it. On a grid of (H+2) rows and (W+2) columns, whatever is filled,
  the border ring included, the trace raises no error of its own: it either returns the
  sides that face a cell reachable from the corner, or it ends in the error of an
  exhausted call stack. It returns when the stack has more free frames than the grid
  has cells, and, on a grid of any size, when the corner itself is filled: then the
  count is 0 and the edge list is empty.
\<close>

theorem computePerimeter_raises_only_stack_overflow:
  assumes "wf_grid s"
  shows "(computePerimeter_stack frames s = Inl StackOverflow \<or>
          (\<exists>n s'. computePerimeter_stack frames s = Inr (n, s') \<and>
                  n = length (perimeterEdges s') \<and> set (perimeterEdges s') = lit s)) \<and>
         ((H s + 2) * (W s + 2) < int frames \<longrightarrow>
          (\<exists>n s'. computePerimeter_stack frames s = Inr (n, s') \<and>
                  n = length (perimeterEdges s') \<and> set (perimeterEdges s') = lit s)) \<and>
         (0 < frames \<longrightarrow> filled s 0 0 \<longrightarrow>
          (\<exists>s'. computePerimeter_stack frames s = Inr (0, s') \<and> perimeterEdges s' = []))"
proof (intro conjI impI)
  from computePerimeter_trace[OF assms] obtain n s' where
    r: "computePerimeter s = Inr (n, s')" "n = length (perimeterEdges s')"
       "set (perimeterEdges s') = lit s" by blast
  from computePerimeter_stack_cases[of frames s] r
  show "computePerimeter_stack frames s = Inl StackOverflow \<or>
        (\<exists>n s'. computePerimeter_stack frames s = Inr (n, s') \<and>
                n = length (perimeterEdges s') \<and> set (perimeterEdges s') = lit s)"
    by auto
  assume "(H s + 2) * (W s + 2) < int frames"
  from computePerimeter_stack_enough[OF assms this] r
  show "\<exists>n s'. computePerimeter_stack frames s = Inr (n, s') \<and>
               n = length (perimeterEdges s') \<and> set (perimeterEdges s') = lit s"
    by auto
next
  assume f: "0 < frames" "filled s 0 0"
  define v where "v = replicate (nat (H s + 2)) (replicate (nat (W s + 2)) False)"
  define s0 where "s0 = s\<lparr>isVisited := v, perimeterEdges := []\<rparr>"
  have nm: "new_matrix (H s + 2) (W s + 2) False = Inr v"
    using assms by (simp add: new_matrix_def wf_grid_def v_def)
  from f(1) obtain k where k: "frames = Suc k" by (cases frames) simp_all
  from f(2) have c: "at2 (grid s0) 0 0 = Some 1" by (simp add: filled_def s0_def)
  then have "has_row (grid s0) 0" by (simp add: at2_def has_row_def split: if_splits)
  with c have "dfs_stack frames 0 0 s0 0 = Inr (s0, 0)"
    unfolding k by (subst dfs_stack.simps) simp
  with nm have "computePerimeter_stack frames s = Inr (0, s0)"
    by (simp add: computePerimeter_stack_def s0_def)
  then show "\<exists>s'. computePerimeter_stack frames s = Inr (0, s') \<and> perimeterEdges s' = []"
    by (simp add: s0_def)
qed

theorem computePerimeter_raises_only_stack_overflow_witness:
  "wf_grid corner_filled \<and> filled corner_filled 0 0 \<and>
   (H corner_filled + 2) * (W corner_filled + 2) < int 10 \<and>
   (\<exists>s'. computePerimeter_stack 10 corner_filled = Inr (0, s') \<and> perimeterEdges s' = [])"
proof -
  have f: "filled corner_filled 0 0" by (simp add: filled_def at2_def corner_filled_def)
  have c: "(H corner_filled + 2) * (W corner_filled + 2) < int 10"
    by (simp add: corner_filled_def)
  from computePerimeter_raises_only_stack_overflow[OF wf_corner_filled, of 10] f c
    wf_corner_filled show ?thesis by simp
qed

text \<open>
  The claim as the specification states it fails: the search recurses once for every
  cell it enters, and along row 0 of an empty grid of width 1000000 and height 1 the
  calls nest 1000002 deep. On a call stack with room for a million of them the trace
  throws.
\<close>

theorem wide_grid_exhausts_stack:
  "wf_grid wide_grid \<and> border_empty wide_grid \<and>
   computePerimeter_stack 1000000 wide_grid = Inl StackOverflow"
proof -
  define v where "v = replicate 3 (replicate 1000002 False)"
  define s0 where "s0 = wide_grid\<lparr>isVisited := v, perimeterEdges := []\<rparr>"
  have wf: "wf_grid wide_grid"
    by (simp add: wf_grid_def wide_grid_def max_array_length_def list_all_length)
  have e: "\<not> filled wide_grid y x" for y x
    by (rule not_filled_zeros) (simp add: wide_grid_def)
  then have be: "border_empty wide_grid" by (simp add: border_empty_def)
  have nm: "new_matrix (H wide_grid + 2) (W wide_grid + 2) False = Inr v"
    by (simp add: new_matrix_def wide_grid_def max_array_length_def v_def)
  have "dfs_stack 1000000 0 0 s0 0 = Inl StackOverflow"
  proof (rule row_overflow)
    show "has_row (grid s0) 0" by (simp add: has_row_def s0_def wide_grid_def)
    show "has_row (isVisited s0) 0" by (simp add: has_row_def s0_def v_def)
    show "- 1 \<le> H s0" by (simp add: s0_def wide_grid_def)
    have "\<not> marked s0 0 x" for x
      by (rule not_marked_fresh[of _ 3 1000002]) (simp add: s0_def v_def)
    moreover have "at2 (grid s0) 0 x \<noteq> Some 1" for x
      using e[of 0 x] by (simp add: filled_def s0_def)
    ultimately show "\<forall>x'. 0 \<le> x' \<longrightarrow> int x' \<le> W s0 + 1 \<longrightarrow>
        at2 (grid s0) 0 x' \<noteq> Some 1 \<and> \<not> marked s0 0 x'" by simp
    show "int (0 + 1000000) \<le> W s0 + 1" by (simp add: s0_def wide_grid_def)
  qed
  with nm have "computePerimeter_stack 1000000 wide_grid = Inl StackOverflow"
    by (simp add: computePerimeter_stack_def s0_def)
  with wf be show ?thesis by simp
qed

text \<open>
  C10, as the code has it. Neither method checks the dimensions: width 0 and height 0
  are taken as every positive width and height is. For a width \<open>w \<ge> 0\<close> and a height
  \<open>h \<ge> 0\<close> that the engine can hold (\<open>h + 2\<close> and \<open>w + 2\<close> within the largest array
  length, and more free stack frames for the first draw than the grid has cells)
  \<open>initEmptyGrid w h\<close> returns with a grid of \<open>h + 2\<close> rows and \<open>w + 2\<close> columns, all
  empty, and \<open>loadFromInput\<close>, given at least one data line and at least \<open>h\<close> of them,
  returns with a grid of that shape that has an empty border ring.
\<close>

theorem dimensions_not_validated:
  assumes "0 \<le> w" "0 \<le> h" "w + 2 \<le> max_array_length" "h + 2 \<le> max_array_length"
    and "(h + 2) * (w + 2) < int frames"
  shows "(\<exists>s'. initEmptyGrid_stack frames w h s = Inr s' \<and> W s' = w \<and> H s' = h \<and>
            grid s' = replicate (nat (h + 2)) (replicate (nat (w + 2)) 0)) \<and>
         (rows \<noteq> [] \<and> h \<le> int (length rows) \<longrightarrow>
            (\<exists>s'. loadFromInput_stack frames (w, h) rows s = Inr s' \<and> W s' = w \<and> H s' = h \<and>
                  wf_grid s' \<and> border_empty s'))"
proof (intro conjI impI)
  from assms have m: "- 1 \<le> w" "- 1 \<le> h" by simp_all
  from initEmptyGrid_total[OF m assms(3,4), of s] obtain s' where
    i: "initEmptyGrid w h s = Inr s'" by blast
  from initEmptyGrid_stack_enough[OF m assms(3,4,5), of s] i initEmptyGrid_result[OF i]
  show "\<exists>s'. initEmptyGrid_stack frames w h s = Inr s' \<and> W s' = w \<and> H s' = h \<and>
            grid s' = replicate (nat (h + 2)) (replicate (nat (w + 2)) 0)"
    by simp
  assume a: "rows \<noteq> [] \<and> h \<le> int (length rows)"
  with loadFromInput_total[OF m _ assms(3,4), of rows s] obtain s' where
    l: "loadFromInput (w, h) rows s = Inr s'" by blast
  from loadFromInput_result[OF l] a m
  have "W s' = w \<and> H s' = h \<and> wf_grid s' \<and> border_empty s'" by simp
  with loadFromInput_stack_enough[OF m assms(3,4,5), of rows s] l
  show "\<exists>s'. loadFromInput_stack frames (w, h) rows s = Inr s' \<and> W s' = w \<and> H s' = h \<and>
            wf_grid s' \<and> border_empty s'"
    by simp
qed

theorem dimensions_not_validated_witness:
  "(\<exists>s'. initEmptyGrid_stack 100 0 0 single_cell = Inr s' \<and> W s' = 0 \<and> H s' = 0 \<and>
      grid s' = replicate 2 (replicate 2 0)) \<and>
   (\<exists>s'. initEmptyGrid_stack 100 8 4 single_cell = Inr s' \<and> W s' = 8 \<and> H s' = 4 \<and>
      grid s' = replicate 6 (replicate 10 0)) \<and>
   (\<exists>s'. loadFromInput_stack 100 (2, 1) [[1, 0]] single_cell = Inr s' \<and> W s' = 2 \<and> H s' = 1 \<and>
      wf_grid s' \<and> border_empty s')"
  using dimensions_not_validated[of 0 0 100 single_cell "[]"]
    dimensions_not_validated[of 8 4 100 single_cell "[]"]
    dimensions_not_validated[of 2 1 100 single_cell "[[1, 0]]"]
  by (simp add: max_array_length_def)

text \<open>
  The claim as the specification states it fails: width and height 0 are not rejected.
\<close>

theorem nonpositive_dimensions_accepted:
  "\<exists>s'. initEmptyGrid 0 0 single_cell = Inr s' \<and> W s' = 0 \<and> H s' = 0 \<and>
        grid s' = [[0, 0], [0, 0]]"
proof -
  obtain s' where r: "initEmptyGrid 0 0 single_cell = Inr s'"
    using initEmptyGrid_total[of 0 0 single_cell] by (auto simp: max_array_length_def)
  from initEmptyGrid_result[OF r] r show ?thesis by (simp add: numeral_2_eq_2)
qed

section \<open>Further properties\<close>

text \<open>
  An all-empty grid: the trace returns 0 and the edge list is empty.
\<close>

theorem empty_grid_no_edges:
  assumes "wf_grid s" "\<forall>y x. \<not> filled s y x"
  shows "\<exists>s'. computePerimeter s = Inr (0, s') \<and> perimeterEdges s' = []"
proof -
  from computePerimeter_trace[OF assms(1)] obtain n s' where
    r: "computePerimeter s = Inr (n, s')" "n = length (perimeterEdges s')"
       "set (perimeterEdges s') = lit s" by blast
  have "lit s = {}" using assms(2) by (simp add: lit_def)
  with r show ?thesis by auto
qed

theorem empty_grid_no_edges_witness:
  "\<exists>t s'. initEmptyGrid 8 4 single_cell = Inr t \<and> computePerimeter t = Inr (0, s') \<and>
          perimeterEdges s' = []"
proof -
  obtain t where t: "initEmptyGrid 8 4 single_cell = Inr t"
    using initEmptyGrid_total[of 8 4 single_cell] by (auto simp: max_array_length_def)
  from initEmptyGrid_result[OF t] have g: "W t = 8" "H t = 4"
    "grid t = replicate (nat (4 + 2)) (replicate (nat (8 + 2)) 0)" by simp_all
  then have wf: "wf_grid t" by (simp add: wf_grid_def list_all_length max_array_length_def)
  have "\<forall>y x. \<not> filled t y x" using not_filled_zeros[OF g(3)] by blast
  from empty_grid_no_edges[OF wf this] t show ?thesis by blast
qed

text \<open>
  Round trip on a grid of (H+2) rows and (W+2) columns: a second click at the same place
  undoes the first, and the trace is again what it was before the two clicks.
\<close>

theorem click_twice_restores_trace:
  assumes "handleClick mouse_dist s = Inr s1" "handleClick mouse_dist s1 = Inr s2"
    and "wf_grid s"
  shows "grid s2 = grid s \<and> W s2 = W s \<and> H s2 = H s \<and> computePerimeter s2 = computePerimeter s"
proof -
  have "same_geo s s2"
  proof (cases "pick mouse_dist s")
    case None
    with assms(1) have e: "s1 = s" by (simp add: handleClick_def)
    with None assms(2) show ?thesis by (simp add: handleClick_def same_geo_def)
  next
    case (Some p)
    obtain x y where p: "p = (x, y)" by (cases p)
    from assms(1) Some p obtain g where t: "toggle (grid s) (nat y) (nat x) = Inr g"
      and d: "draw (s\<lparr>grid := g\<rparr>) = Inr s1"
      by (auto simp: handleClick_def split: sum.splits)
    from draw_geo[OF d] have g1: "grid s1 = g" "W s1 = W s" "H s1 = H s"
      by (simp_all add: same_geo_def)
    then have "pick mouse_dist s1 = Some (x, y)" using Some p by (simp add: pick_def)
    from pick_range[of mouse_dist s x y] Some p
    have rg: "1 \<le> x" "x \<le> W s" "1 \<le> y" "y \<le> H s" by simp_all
    with assms(3) have "nat x < length (grid s ! nat y)"
      by (auto simp: wf_grid_def list_all_length)
    from toggle_twice[OF t this] assms(2) g1 \<open>pick mouse_dist s1 = Some (x, y)\<close>
    have "draw (s1\<lparr>grid := grid s\<rparr>) = Inr s2"
      by (simp add: handleClick_def)
    from draw_geo[OF this] g1 show ?thesis by (simp add: same_geo_def)
  qed
  then show ?thesis using same_geo_computePerimeter[of s s2] by (simp add: same_geo_def)
qed

theorem click_twice_restores_trace_witness:
  "\<exists>s1 s2. handleClick (\<lambda>x y. if x = 2 \<and> y = 2 then 0 else 100) single_cell = Inr s1 \<and>
     handleClick (\<lambda>x y. if x = 2 \<and> y = 2 then 0 else 100) s1 = Inr s2 \<and>
     grid s2 = grid single_cell \<and> computePerimeter s2 = computePerimeter single_cell"
proof -
  let ?m = "\<lambda>x y. if x = 2 \<and> y = 2 then 0 else (100::real)"
  obtain s1 where 1: "handleClick ?m single_cell = Inr s1"
    using handleClick_total[OF wf_single_cell] by blast
  have "wf_grid s1"
  proof (cases "pick ?m single_cell")
    case None
    with 1 wf_single_cell show ?thesis by (simp add: handleClick_def)
  next
    case (Some p)
    obtain x y where p: "p = (x, y)" by (cases p)
    from 1 Some p obtain g where t: "toggle (grid single_cell) (nat y) (nat x) = Inr g"
      and d: "draw (single_cell\<lparr>grid := g\<rparr>) = Inr s1"
      by (auto simp: handleClick_def split: sum.splits)
    from pick_range[of ?m single_cell x y] Some p
    have rg: "1 \<le> x" "x \<le> W single_cell" "1 \<le> y" "y \<le> H single_cell" by simp_all
    with wf_single_cell have "nat x < length (grid single_cell ! nat y)"
      by (auto simp: wf_grid_def list_all_length)
    from toggle_shape[OF t this] wf_single_cell have "wf_grid (single_cell\<lparr>grid := g\<rparr>)"
      by (simp add: wf_grid_def list_all_length)
    with geo_wf_grid[OF draw_geo[OF d]] show ?thesis by simp
  qed
  from handleClick_total[OF this] obtain s2 where 2: "handleClick ?m s1 = Inr s2" by blast
  from click_twice_restores_trace[OF 1 2 wf_single_cell] 1 2 show ?thesis by blast
qed

text \<open>
  On the fixture of the specification the trace returns 14.
\<close>

theorem block_fixture_count:
  "map_sum id fst (computePerimeter block_fixture) = Inr 14"
  by code_simp

end
